theory Spec2Isabelle
  imports Main "HOL-Library.Word"
begin

unbundle bit_operations_syntax

section \<open>Machine words and errors\<close>

text \<open>
  The pools are instantiated with \<open>uint32_t\<close> words throughout (\<open>DAGNodePool\<close> derives from
  \<open>NodePoolBase<DAGNodePool, uint32_t>\<close>).  Sizes and indices of type \<open>size_t\<close> that only count
  pages and words are natural numbers.
\<close>

type_synonym Word = "32 word"

datatype error =
    OutOfBounds    \<comment> \<open>an index outside the array it indexes: undefined behaviour in C++\<close>
  | OutOfBuckets   \<comment> \<open>a bucket of the node pool has no room for the node\<close>

section \<open>DAGNodePool: the paged backing store\<close>

text \<open>
  \<open>std::unique_ptr<std::unique_ptr<uint32_t[]>[]> m_pages\<close>: one slot per page, a null slot
  (\<open>None\<close>) for a page that has no buffer.  \<open>WritePage\<close> allocates the buffer with
  \<open>make_unique_for_overwrite\<close>, which leaves its words indeterminate: a cell of a buffer is
  \<open>None\<close> until a word has been copied into it.
\<close>

type_synonym page_buffer = "Word option list"

record DAGNodePool =
  words_per_page :: nat                 \<comment> \<open>\<open>GetConfig().GetWordsPerPage()\<close>\<close>
  m_pages :: "page_buffer option list"

text \<open>
  Modelled from the spec: the constructor of the pool is not in the sources.  Every page
  starts absent (``pages exist in one of three states: absent (never written), ...'').
\<close>

definition DAGNodePool_new :: "nat \<Rightarrow> nat \<Rightarrow> DAGNodePool" where
  "DAGNodePool_new wpp total_pages =
     \<lparr>words_per_page = wpp, m_pages = replicate total_pages None\<rparr>"

text \<open>\<open>std::copy(data.begin(), data.end(), page + offset)\<close>\<close>

fun copy_words :: "Word list \<Rightarrow> page_buffer \<Rightarrow> nat \<Rightarrow> page_buffer" where
  "copy_words [] page offset = page"
| "copy_words (w # ws) page offset = copy_words ws (page[offset := Some w]) (Suc offset)"

definition WritePage :: "DAGNodePool \<Rightarrow> nat \<Rightarrow> nat \<Rightarrow> Word list \<Rightarrow> error + DAGNodePool" where
  "WritePage pool page_id offset data =
     (if page_id < length (m_pages pool) \<and> offset + length data \<le> words_per_page pool then
        let page = (case m_pages pool ! page_id of
                      None \<Rightarrow> replicate (words_per_page pool) None
                    | Some p \<Rightarrow> p)
        in Inr (pool\<lparr>m_pages := (m_pages pool)[page_id := Some (copy_words data page offset)]\<rparr>)
      else Inl OutOfBounds)"

text \<open>
  \<open>ReadPage\<close> returns \<open>m_pages[page_id].get()\<close>: the buffer, or the null pointer (\<open>None\<close>)
  when the slot is empty.  The prefetch of the next page has no effect on the result.
\<close>

definition ReadPage :: "DAGNodePool \<Rightarrow> nat \<Rightarrow> error + page_buffer option" where
  "ReadPage pool page_id =
     (if page_id < length (m_pages pool) then Inr (m_pages pool ! page_id) else Inl OutOfBounds)"

text \<open>A history of writes \<open>(page_id, offset, data)\<close>, applied in order; it stops at the first error.\<close>

fun WritePages :: "DAGNodePool \<Rightarrow> (nat \<times> nat \<times> Word list) list \<Rightarrow> error + DAGNodePool" where
  "WritePages pool [] = Inr pool"
| "WritePages pool ((page_id, offset, data) # ws) =
     (case WritePage pool page_id offset data of
        Inl e \<Rightarrow> Inl e
      | Inr pool' \<Rightarrow> WritePages pool' ws)"

text \<open>The word a history of writes leaves in cell \<open>k\<close> of a page: that of the last write covering it.\<close>

fun written_cell :: "(nat \<times> nat \<times> Word list) list \<Rightarrow> nat \<Rightarrow> nat \<Rightarrow> Word option \<Rightarrow> Word option" where
  "written_cell [] page_id k c = c"
| "written_cell ((p, offset, data) # ws) page_id k c =
     written_cell ws page_id k
       (if p = page_id \<and> offset \<le> k \<and> k < offset + length data then Some (data ! (k - offset)) else c)"

definition never_written :: "(nat \<times> nat \<times> Word list) list \<Rightarrow> nat \<Rightarrow> bool" where
  "never_written ws page_id = (\<forall>w \<in> set ws. fst w \<noteq> page_id)"

text \<open>The shape of a pool: every buffer has \<open>words_per_page\<close> cells.\<close>

definition pool_wf :: "DAGNodePool \<Rightarrow> bool" where
  "pool_wf pool = (\<forall>p \<in> set (m_pages pool). \<forall>b. p = Some b \<longrightarrow> length b = words_per_page pool)"

text \<open>The cell a page holds, \<open>None\<close> when the page has no buffer or the cell is indeterminate.\<close>

definition page_cell :: "DAGNodePool \<Rightarrow> nat \<Rightarrow> nat \<Rightarrow> Word option" where
  "page_cell pool page_id k =
     (case m_pages pool ! page_id of None \<Rightarrow> None | Some b \<Rightarrow> b ! k)"

section \<open>DAGColorPool: the leaf store\<close>

text \<open>
  \<open>DAGColorPool::Pointer\<close>: a tag and data packed into 32 bits.  Modelled from the spec: the
  packing is not in the sources; the pointer has a 2-bit tag and a 30-bit data field, so the
  constructor keeps the low 30 bits of the data it is given.
\<close>

datatype Tag = kNode | kColor | kLeaf | kNull

datatype Pointer = Pointer (GetTag: Tag) (GetData30: "30 word")

definition make_Pointer :: "Tag \<Rightarrow> Word \<Rightarrow> Pointer" where
  "make_Pointer t d = Pointer t (ucast d)"

definition GetData :: "Pointer \<Rightarrow> Word" where
  "GetData ptr = ucast (GetData30 ptr)"

text \<open>
  \<open>SafePagedVector<T>\<close>: pages of \<open>2 ^ m_page_bits\<close> elements (\<open>ForeachPage\<close> splits an index
  into \<open>idx >> m_page_bits\<close> and \<open>idx & m_page_mask\<close>), \<open>m_total_pages\<close> of them, the first
  \<open>m_used_pages\<close> handed out.  \<open>m_elems\<close> is the element stored at each index; what an index
  holds before it is written is whatever the store has there.
\<close>

record 'a SafePagedVector =
  m_page_bits :: nat
  m_total_pages :: nat
  m_used_pages :: nat
  m_elems :: "nat \<Rightarrow> 'a"

definition m_page_size :: "'a SafePagedVector \<Rightarrow> nat" where
  "m_page_size v = 2 ^ m_page_bits v"

text \<open>
  Modelled from the spec: \<open>allocate_pages\<close> is not in the sources.  It hands out the next
  \<open>required_pages\<close> pages, runs the initializer over their elements, and returns the index
  of the first element (``\<open>append(n, initializer) \<rightarrow> Option<index>\<close>'').  The initializer
  receives the first index, the number of elements and the elements of the vector.
\<close>

type_synonym 'a initializer = "nat \<Rightarrow> nat \<Rightarrow> (nat \<Rightarrow> 'a) \<Rightarrow> (nat \<Rightarrow> 'a)"

definition allocate_pages ::
  "'a SafePagedVector \<Rightarrow> nat \<Rightarrow> 'a initializer \<Rightarrow> (nat \<times> 'a SafePagedVector) option" where
  "allocate_pages v required_pages init =
     (let idx = m_used_pages v * m_page_size v in
      Some (idx, v\<lparr>m_used_pages := m_used_pages v + required_pages,
                   m_elems := init idx (required_pages * m_page_size v) (m_elems v)\<rparr>))"

definition required_pages :: "'a SafePagedVector \<Rightarrow> nat \<Rightarrow> nat" where
  "required_pages v count = (count + m_page_size v - 1) div m_page_size v"

definition Append ::
  "'a SafePagedVector \<Rightarrow> nat \<Rightarrow> 'a initializer \<Rightarrow> (nat \<times> 'a SafePagedVector) option" where
  "Append v count init =
     (if m_used_pages v \<ge> m_total_pages v then None
      else if m_used_pages v + required_pages v count > m_total_pages v then None
      else allocate_pages v (required_pages v count) init)"

text \<open>
  Modelled from the spec: \<open>SafePagedVector::Read\<close> is not in the sources; \<open>Read(idx, f)\<close>
  applies \<open>f\<close> to the element at \<open>idx\<close>.
\<close>

definition Read :: "'a SafePagedVector \<Rightarrow> nat \<Rightarrow> ('a \<Rightarrow> 'b) \<Rightarrow> 'b" where
  "Read v idx f = f (m_elems v idx)"

text \<open>
  \<open>VBRChunk\<close>: macro blocks, block headers and the weight bits.  Modelled from the spec:
  \<open>calculate_chunk_size\<close> and \<open>write_leaf_chunk\<close> are not in the sources.  A leaf slot is
  \<open>[capacity_words][chunk words...]\<close>; after the capacity word come the three counts and then
  the three arrays (``Block Size | Macro Count | Header Count | Bit Count | MacroBlock data |
  BlockHeader data | Weight bits''), each entry taken as one word.
\<close>

record VBRChunk =
  macro_blocks :: "Word list"
  block_headers :: "Word list"
  weight_bits :: "Word list"

definition chunk_words :: "VBRChunk \<Rightarrow> Word list" where
  "chunk_words chunk =
     [of_nat (length (macro_blocks chunk)), of_nat (length (block_headers chunk)),
      of_nat (length (weight_bits chunk))]
     @ macro_blocks chunk @ block_headers chunk @ weight_bits chunk"

definition calculate_chunk_size :: "VBRChunk \<Rightarrow> nat" where
  "calculate_chunk_size chunk = length (chunk_words chunk)"

definition write_leaf_chunk :: "Word SafePagedVector \<Rightarrow> nat \<Rightarrow> VBRChunk \<Rightarrow> Word SafePagedVector" where
  "write_leaf_chunk v idx chunk =
     v\<lparr>m_elems := (\<lambda>i. if idx \<le> i \<and> i < idx + calculate_chunk_size chunk
                       then chunk_words chunk ! (i - idx) else m_elems v i)\<rparr>"

text \<open>
  The colour pool: \<open>m_config.keep_history\<close>, the node vector (a node is 8 tagged pointers)
  and the leaf vector.
\<close>

record DAGColorPool =
  keep_history :: bool
  m_nodes :: "Pointer list SafePagedVector"
  m_leaves :: "Word SafePagedVector"

text \<open>The initializer \<open>[](auto&&...) {}\<close> that \<open>SetLeaf\<close> passes to \<open>Append\<close> does nothing.\<close>

definition no_init :: "'a initializer" where
  "no_init idx count elems = elems"

text \<open>
  The test of the fast path of \<open>SetLeaf\<close>: history is off, the pointer is a leaf, and the
  chunk is no larger than the capacity word of its slot.
\<close>

definition reuses_slot :: "DAGColorPool \<Rightarrow> Pointer \<Rightarrow> VBRChunk \<Rightarrow> bool" where
  "reuses_slot pool ptr chunk =
     (\<not> keep_history pool \<and> GetTag ptr = kLeaf
      \<and> calculate_chunk_size chunk \<le> unat (Read (m_leaves pool) (unat (GetData ptr)) id))"

text \<open>The value of \<open>append_size\<close> when \<open>SetLeaf\<close> reaches \<open>Append\<close>.\<close>

definition leaf_append_size :: "DAGColorPool \<Rightarrow> Pointer \<Rightarrow> VBRChunk \<Rightarrow> nat" where
  "leaf_append_size pool ptr chunk =
     (let data_size = calculate_chunk_size chunk;
          append_size = (if odd data_size then data_size + 1 else data_size)
      in if \<not> keep_history pool \<and> GetTag ptr = kLeaf
         then max (2 * unat (Read (m_leaves pool) (unat (GetData ptr)) id)) append_size
         else append_size)"

definition SetLeaf :: "DAGColorPool \<Rightarrow> Pointer \<Rightarrow> VBRChunk \<Rightarrow> Pointer \<times> DAGColorPool" where
  "SetLeaf pool ptr chunk =
     (if reuses_slot pool ptr chunk then
        (ptr, pool\<lparr>m_leaves := write_leaf_chunk (m_leaves pool) (unat (GetData ptr) + 1) chunk\<rparr>)
      else
        case Append (m_leaves pool) (leaf_append_size pool ptr chunk) no_init of
          None \<Rightarrow> (ptr, pool)
        | Some (idx, leaves) \<Rightarrow>
            (make_Pointer kLeaf (of_nat idx),
             pool\<lparr>m_leaves := write_leaf_chunk leaves (idx + 1) chunk\<rparr>))"

text \<open>
  Page capacity is exhausted for a request of \<open>count\<close> elements: no page is free, or the
  free pages are fewer than the request needs.
\<close>

definition free_pages :: "'a SafePagedVector \<Rightarrow> nat" where
  "free_pages v = m_total_pages v - m_used_pages v"

definition capacity_exhausted :: "'a SafePagedVector \<Rightarrow> nat \<Rightarrow> bool" where
  "capacity_exhausted v count = (free_pages v = 0 \<or> free_pages v < required_pages v count)"

text \<open>A leaf store of one page of four words, all of it handed out.\<close>

definition full_pool :: DAGColorPool where
  "full_pool =
     \<lparr>keep_history = False,
      m_nodes = \<lparr>m_page_bits = 0, m_total_pages = 0, m_used_pages = 0, m_elems = (\<lambda>i. [])\<rparr>,
      m_leaves = \<lparr>m_page_bits = 2, m_total_pages = 1, m_used_pages = 1, m_elems = (\<lambda>i. 0)\<rparr>\<rparr>"

definition one_block_chunk :: VBRChunk where
  "one_block_chunk = \<lparr>macro_blocks = [0], block_headers = [5], weight_bits = []\<rparr>"



section \<open>NodePool: the hash-consed geometry pool\<close>

text \<open>
  \<open>hashdag::Config<uint32_t>\<close>.  The three fields are those of the struct; its accessors are
  declared but not defined in the sources.  Modelled from the spec: a page has
  \<open>2 ^ word_bits_per_page\<close> words, a bucket \<open>2 ^ page_bits_per_bucket\<close> pages, level \<open>l\<close> has
  \<open>2 ^ bucket_bits_each_level[l]\<close> buckets and the levels' bucket ranges follow each other;
  the node levels are \<open>0 .. L - 2\<close>, the leaves are at level \<open>L - 2\<close> and the voxels at level
  \<open>L\<close>.  \<open>MurmurHasher32\<close> calls \<open>murmur_hash_32\<close>, which is not in the sources: the hash
  function is the parameter \<open>hasher\<close> of the configuration.
\<close>

record Config =
  word_bits_per_page :: nat
  page_bits_per_bucket :: nat
  bucket_bits_each_level :: "nat list"
  hasher :: "Word list \<Rightarrow> Word"

definition GetWordsPerPage :: "Config \<Rightarrow> nat" where
  "GetWordsPerPage cfg = 2 ^ word_bits_per_page cfg"

definition GetPagesPerBucket :: "Config \<Rightarrow> nat" where
  "GetPagesPerBucket cfg = 2 ^ page_bits_per_bucket cfg"

definition GetWordsPerBucket :: "Config \<Rightarrow> nat" where
  "GetWordsPerBucket cfg = GetWordsPerPage cfg * GetPagesPerBucket cfg"

definition GetBucketsAtLevel :: "Config \<Rightarrow> nat \<Rightarrow> nat" where
  "GetBucketsAtLevel cfg l = 2 ^ (bucket_bits_each_level cfg ! l)"

definition GetNodeLevels :: "Config \<Rightarrow> nat" where
  "GetNodeLevels cfg = length (bucket_bits_each_level cfg)"

definition GetLeafLevel :: "Config \<Rightarrow> nat" where
  "GetLeafLevel cfg = GetNodeLevels cfg - 1"

definition GetVoxelLevel :: "Config \<Rightarrow> nat" where
  "GetVoxelLevel cfg = GetNodeLevels cfg + 1"

definition level_base :: "Config \<Rightarrow> nat \<Rightarrow> nat" where
  "level_base cfg l = sum_list (map (\<lambda>b. 2 ^ b) (take l (bucket_bits_each_level cfg)))"

definition GetTotalBuckets :: "Config \<Rightarrow> nat" where
  "GetTotalBuckets cfg = level_base cfg (GetNodeLevels cfg)"

definition GetTotalWords :: "Config \<Rightarrow> nat" where
  "GetTotalWords cfg = GetTotalBuckets cfg * GetWordsPerBucket cfg"

text \<open>
  \<open>NodePointer<Word>\<close> is one word.  Modelled from the spec: the values of \<open>Null()\<close> and
  \<open>Filled()\<close> are not in the sources; they are ``out-of-band sentinels ... (reserved high-bit
  patterns)'', here the two largest words, and every other value is a word address.
\<close>

type_synonym NodePointer = Word

definition Null :: NodePointer where
  "Null = 0xFFFFFFFF"

definition Filled :: NodePointer where
  "Filled = 0xFFFFFFFE"

text \<open>
  The state of the pool: \<open>BucketState::used_words\<close> of every bucket, and the words of the
  pages by word address (page \<open>p\<close> holds the addresses from \<open>p * GetWordsPerPage\<close> on).  A word
  that was never written is whatever the store holds there.
\<close>

record NodePool =
  bucket_words :: "nat \<Rightarrow> nat"
  mem :: "nat \<Rightarrow> Word"

definition NodePool_empty :: NodePool where
  "NodePool_empty = \<lparr>bucket_words = (\<lambda>b. 0), mem = (\<lambda>a. 0)\<rparr>"

definition read_page :: "Config \<Rightarrow> NodePool \<Rightarrow> nat \<Rightarrow> nat \<Rightarrow> Word" where
  "read_page cfg pool page_id = (\<lambda>k. mem pool (page_id * GetWordsPerPage cfg + k))"

text \<open>
  The word at an offset of a bucket, read as \<open>find_node\<close> reads it: from page
  \<open>page_start + offset / words_per_page\<close>, where \<open>page_start = bucket_index * pages_per_bucket\<close>.
\<close>

definition bucket_word :: "Config \<Rightarrow> NodePool \<Rightarrow> nat \<Rightarrow> nat \<Rightarrow> Word" where
  "bucket_word cfg pool bucket_index offset =
     (let page_start = bucket_index * GetPagesPerBucket cfg;
          page_id = page_start + offset div GetWordsPerPage cfg
      in read_page cfg pool page_id (offset mod GetWordsPerPage cfg))"

text \<open>
  Modelled from the spec: the size of a node ``is derivable from level and childmask alone'':
  a leaf is two words, an inner node is its first word \<open>[childmask : u8 | reserved : u24]\<close>
  followed by \<open>popcount(childmask)\<close> child pointers.
\<close>

definition popcount8 :: "Word \<Rightarrow> nat" where
  "popcount8 w = length (filter (bit w) [0..<8])"

definition node_words :: "Config \<Rightarrow> nat \<Rightarrow> Word \<Rightarrow> nat" where
  "node_words cfg lvl w = (if lvl = GetLeafLevel cfg then 2 else 1 + popcount8 w)"

definition read_node :: "Config \<Rightarrow> NodePool \<Rightarrow> nat \<Rightarrow> nat \<Rightarrow> nat \<Rightarrow> Word list" where
  "read_node cfg pool lvl bucket_index offset =
     map (bucket_word cfg pool bucket_index)
       [offset ..< offset + node_words cfg lvl (bucket_word cfg pool bucket_index offset)]"

definition node_address :: "Config \<Rightarrow> nat \<Rightarrow> nat \<Rightarrow> NodePointer" where
  "node_address cfg bucket_index offset = of_nat (bucket_index * GetWordsPerBucket cfg + offset)"

text \<open>
  \<open>find_node_in_page\<close> is not in the sources.  Modelled from the spec: ``iterate every node
  within the bucket's \<open>used\<close> prefix (\<dots> respecting node-size-from-childmask); for each,
  compare word-for-word; on match return its address''.  It is handed one page: it walks the
  nodes of that page from the page's first word, compares a node that lies within the words
  of the page that are in use, and returns \<open>NodePointer::Null()\<close> when none matches.  Beside
  the page and the node of the source's call the model passes what the page pointer stands
  for there: the page's id (for the address) and the number of its words in use; \<open>offset\<close> is
  the walk's position in the page, 0 when \<open>find_node\<close> calls it.
\<close>

function find_node_in_page ::
  "Config \<Rightarrow> nat \<Rightarrow> nat \<Rightarrow> nat \<Rightarrow> (nat \<Rightarrow> Word) \<Rightarrow> Word list \<Rightarrow> nat \<Rightarrow> NodePointer" where
  "find_node_in_page cfg lvl page_id page_words page_data node_span offset =
     (if offset < page_words then
        if offset + node_words cfg lvl (page_data offset) \<le> page_words
           \<and> map page_data [offset ..< offset + node_words cfg lvl (page_data offset)] = node_span
        then of_nat (page_id * GetWordsPerPage cfg + offset)
        else find_node_in_page cfg lvl page_id page_words page_data node_span
               (offset + node_words cfg lvl (page_data offset))
      else Null)"
  by pat_completeness auto
termination
  by (relation "measure (\<lambda>(cfg, lvl, page_id, page_words, page_data, node, off). page_words - off)")
     (auto simp: node_words_def)

declare find_node_in_page.simps [simp del]

text \<open>
  \<open>find_node\<close>: the loop over the pages of the bucket's used words, from \<open>page_offset\<close> on
  (\<open>find_node\<close> starts it at 0).  Each page is read and handed alone to \<open>find_node_in_page\<close>;
  the first result that is not \<open>Null\<close> is returned.
\<close>

function find_node_loop ::
  "Config \<Rightarrow> NodePool \<Rightarrow> nat \<Rightarrow> nat \<Rightarrow> Word list \<Rightarrow> nat \<Rightarrow> NodePointer" where
  "find_node_loop cfg pool lvl bucket_index node_span page_offset =
     (if page_offset < bucket_words pool bucket_index then
        let page_start = bucket_index * GetPagesPerBucket cfg;
            page_id = page_start + page_offset div GetWordsPerPage cfg;
            page_data = read_page cfg pool page_id;
            result = find_node_in_page cfg lvl page_id
                       (min (GetWordsPerPage cfg) (bucket_words pool bucket_index - page_offset))
                       page_data node_span 0
        in if result \<noteq> Null then result
           else find_node_loop cfg pool lvl bucket_index node_span
                  (page_offset + GetWordsPerPage cfg)
      else Null)"
  by pat_completeness auto
termination
  by (relation "measure (\<lambda>(cfg, pool, lvl, b, node, off). bucket_words pool b - off)")
     (auto simp: GetWordsPerPage_def intro!: diff_less_mono2)

definition find_node :: "Config \<Rightarrow> NodePool \<Rightarrow> nat \<Rightarrow> nat \<Rightarrow> Word list \<Rightarrow> NodePointer" where
  "find_node cfg pool lvl bucket_index node_span =
     find_node_loop cfg pool lvl bucket_index node_span 0"

text \<open>
  \<open>calculate_bucket\<close> (``Hash Distribution''): \<open>hash(node_content) % buckets_at_level\<close> added to
  the first bucket of the level.
\<close>

definition calculate_bucket :: "Config \<Rightarrow> nat \<Rightarrow> Word list \<Rightarrow> nat" where
  "calculate_bucket cfg lvl node_span =
     level_base cfg lvl + unat (hasher cfg node_span) mod GetBucketsAtLevel cfg lvl"

definition write_words :: "(nat \<Rightarrow> Word) \<Rightarrow> nat \<Rightarrow> Word list \<Rightarrow> (nat \<Rightarrow> Word)" where
  "write_words m a ws = (\<lambda>i. if a \<le> i \<and> i < a + length ws then ws ! (i - a) else m i)"

text \<open>
  Modelled from the spec: \<open>append_node\<close> is not in the sources.  ``Check capacity; write the
  node's words at the tail via \<open>write_page\<close> calls (possibly crossing a page boundary); publish
  the new \<open>used\<close>''; ``on capacity exhaustion fail with \<open>OutOfBuckets\<close>''.  The result is the
  address of the first word written.
\<close>

definition append_node :: "Config \<Rightarrow> NodePool \<Rightarrow> nat \<Rightarrow> Word list \<Rightarrow> error + NodePointer \<times> NodePool" where
  "append_node cfg pool bucket_index node_span =
     (let used = bucket_words pool bucket_index in
      if used + length node_span > GetWordsPerBucket cfg then Inl OutOfBuckets
      else Inr (node_address cfg bucket_index used,
                pool\<lparr>mem := write_words (mem pool)
                               (bucket_index * GetWordsPerBucket cfg + used) node_span,
                     bucket_words := (bucket_words pool)
                               (bucket_index := used + length node_span)\<rparr>))"

text \<open>
  \<open>upsert_node\<close>: look the node up; if it is not there, take the bucket's mutex, look it up
  again and append it.  The model runs one upsert at a time, so taking the mutex does nothing
  and the second lookup sees the pool the first one saw.
\<close>

definition upsert_node :: "Config \<Rightarrow> NodePool \<Rightarrow> nat \<Rightarrow> Word list \<Rightarrow> error + NodePointer \<times> NodePool" where
  "upsert_node cfg pool lvl node_span =
     (let bucket_index = calculate_bucket cfg lvl node_span;
          existing = find_node cfg pool lvl bucket_index node_span
      in if existing \<noteq> Null then Inr (existing, pool)
         else
           let existing = find_node cfg pool lvl bucket_index node_span
           in if existing \<noteq> Null then Inr (existing, pool)
              else append_node cfg pool bucket_index node_span)"

text \<open>A sequence of upserts \<open>(level, node words)\<close>, run in order; it stops at the first error.\<close>

primrec upserts :: "Config \<Rightarrow> (nat \<times> Word list) list \<Rightarrow> NodePool \<Rightarrow> error + NodePool" where
  "upserts cfg [] pool = Inr pool"
| "upserts cfg (op # ops) pool =
     (case upsert_node cfg pool (fst op) (snd op) of
        Inl e \<Rightarrow> Inl e
      | Inr (p, pool') \<Rightarrow> upserts cfg ops pool')"

subsection \<open>What a bucket stores\<close>

text \<open>The offsets of the nodes the scan of a bucket visits from an offset on, and where it stops.\<close>

function scan_from :: "Config \<Rightarrow> NodePool \<Rightarrow> nat \<Rightarrow> nat \<Rightarrow> nat \<Rightarrow> nat list" where
  "scan_from cfg pool lvl b off =
     (if off < bucket_words pool b
      then off # scan_from cfg pool lvl b (off + node_words cfg lvl (bucket_word cfg pool b off))
      else [])"
  by pat_completeness auto
termination
  by (relation "measure (\<lambda>(cfg, pool, lvl, b, off). bucket_words pool b - off)")
     (auto simp: node_words_def)

function scan_end :: "Config \<Rightarrow> NodePool \<Rightarrow> nat \<Rightarrow> nat \<Rightarrow> nat \<Rightarrow> nat" where
  "scan_end cfg pool lvl b off =
     (if off < bucket_words pool b
      then scan_end cfg pool lvl b (off + node_words cfg lvl (bucket_word cfg pool b off))
      else off)"
  by pat_completeness auto
termination
  by (relation "measure (\<lambda>(cfg, pool, lvl, b, off). bucket_words pool b - off)")
     (auto simp: node_words_def)

declare find_node_loop.simps [simp del] scan_from.simps [simp del] scan_end.simps [simp del]

definition stored_offsets :: "Config \<Rightarrow> NodePool \<Rightarrow> nat \<Rightarrow> nat \<Rightarrow> nat list" where
  "stored_offsets cfg pool lvl b = scan_from cfg pool lvl b 0"

text \<open>The nodes of a bucket: the address and the words of each.\<close>

definition stored_nodes :: "Config \<Rightarrow> NodePool \<Rightarrow> nat \<Rightarrow> nat \<Rightarrow> (NodePointer \<times> Word list) list" where
  "stored_nodes cfg pool lvl b =
     map (\<lambda>q. (node_address cfg b q, read_node cfg pool lvl b q)) (stored_offsets cfg pool lvl b)"

text \<open>\<open>p\<close> is the address of a node of level \<open>lvl\<close> whose words are \<open>node\<close>.\<close>

definition stored :: "Config \<Rightarrow> NodePool \<Rightarrow> nat \<Rightarrow> NodePointer \<Rightarrow> Word list \<Rightarrow> bool" where
  "stored cfg pool lvl p node =
     (\<exists>k < GetBucketsAtLevel cfg lvl.
        \<exists>q \<in> set (stored_offsets cfg pool lvl (level_base cfg lvl + k)).
          p = node_address cfg (level_base cfg lvl + k) q
          \<and> read_node cfg pool lvl (level_base cfg lvl + k) q = node)"

text \<open>
  The words of \<open>node\<close> lie at the address \<open>p\<close>, inside the used words of a bucket of level
  \<open>lvl\<close>, and their number is the node size the first of them gives.
\<close>

definition held :: "Config \<Rightarrow> NodePool \<Rightarrow> nat \<Rightarrow> NodePointer \<Rightarrow> Word list \<Rightarrow> bool" where
  "held cfg pool lvl p node =
     (\<exists>k < GetBucketsAtLevel cfg lvl. \<exists>q.
        q + length node \<le> bucket_words pool (level_base cfg lvl + k)
        \<and> p = node_address cfg (level_base cfg lvl + k) q
        \<and> read_node cfg pool lvl (level_base cfg lvl + k) q = node)"

text \<open>
  The configurations the pool is built for: there is a level, and ``total word capacity fits
  in 32 bits'', below the two sentinels.
\<close>

definition config_ok :: "Config \<Rightarrow> bool" where
  "config_ok cfg = (0 < GetNodeLevels cfg \<and> GetTotalWords cfg \<le> 2 ^ 32 - 2)"

text \<open>A candidate node of a level: its length is the node size its first word gives.\<close>

definition node_wf :: "Config \<Rightarrow> nat \<Rightarrow> Word list \<Rightarrow> bool" where
  "node_wf cfg lvl node =
     (lvl < GetNodeLevels cfg \<and> node \<noteq> [] \<and> length node = node_words cfg lvl (hd node))"

definition ops_wf :: "Config \<Rightarrow> (nat \<times> Word list) list \<Rightarrow> bool" where
  "ops_wf cfg ops = list_all (\<lambda>(lvl, node). node_wf cfg lvl node) ops"

text \<open>
  The invariant of the pool: no bucket uses more words than it has, and in every bucket of
  every level the walk from node to node ends exactly at the bucket's used words.
\<close>

definition bucket_ok :: "Config \<Rightarrow> NodePool \<Rightarrow> nat \<Rightarrow> nat \<Rightarrow> bool" where
  "bucket_ok cfg pool lvl b =
     (bucket_words pool b \<le> GetWordsPerBucket cfg
      \<and> scan_end cfg pool lvl b 0 = bucket_words pool b)"

definition pool_inv :: "Config \<Rightarrow> NodePool \<Rightarrow> bool" where
  "pool_inv cfg pool =
     ((\<forall>b. bucket_words pool b \<le> GetWordsPerBucket cfg)
      \<and> (\<forall>lvl < GetNodeLevels cfg. \<forall>k < GetBucketsAtLevel cfg lvl.
            bucket_ok cfg pool lvl (level_base cfg lvl + k)))"

text \<open>\<open>pool'\<close> keeps the used words of every bucket of \<open>pool\<close>.\<close>

definition pool_ext :: "Config \<Rightarrow> NodePool \<Rightarrow> NodePool \<Rightarrow> bool" where
  "pool_ext cfg pool pool' =
     (\<forall>b. bucket_words pool b \<le> bucket_words pool' b
          \<and> (\<forall>i < bucket_words pool b. bucket_word cfg pool' b i = bucket_word cfg pool b i))"

text \<open>
  A small configuration: two levels (one inner level, the leaves), one bucket for level 0 and
  two for level 1, buckets of one page of eight words; a node is hashed to its first word.
\<close>

definition small_config :: Config where
  "small_config = \<lparr>word_bits_per_page = 3, page_bits_per_bucket = 0,
                    bucket_bits_each_level = [0, 1], hasher = (\<lambda>ws. hd ws)\<rparr>"




section \<open>Editors (main.cpp)\<close>

text \<open>\<open>glm::u32vec3\<close>, \<open>glm::i64vec3\<close>, \<open>glm::u64vec3\<close>: three components.\<close>

datatype 'a vec3 = Vec3 (vx: 'a) (vy: 'a) (vz: 'a)

text \<open>\<open>glm::any(rel(a, b))\<close> and \<open>glm::all(rel(a, b))\<close> for a componentwise relation.\<close>

definition vec3_any :: "('a \<Rightarrow> 'a \<Rightarrow> bool) \<Rightarrow> 'a vec3 \<Rightarrow> 'a vec3 \<Rightarrow> bool" where
  "vec3_any rel a b = (rel (vx a) (vx b) \<or> rel (vy a) (vy b) \<or> rel (vz a) (vz b))"

definition vec3_all :: "('a \<Rightarrow> 'a \<Rightarrow> bool) \<Rightarrow> 'a vec3 \<Rightarrow> 'a vec3 \<Rightarrow> bool" where
  "vec3_all rel a b = (rel (vx a) (vx b) \<and> rel (vy a) (vy b) \<and> rel (vz a) (vz b))"

definition vec3_op :: "('a \<Rightarrow> 'a \<Rightarrow> 'a) \<Rightarrow> 'a vec3 \<Rightarrow> 'a vec3 \<Rightarrow> 'a vec3" where
  "vec3_op f a b = Vec3 (f (vx a) (vx b)) (f (vy a) (vy b)) (f (vz a) (vz b))"

text \<open>\<open>hashdag::EditType\<close> and the \<open>EditMode\<close> of main.cpp (whose enumerators are \<open>kFill\<close>,
  \<open>kDig\<close> and \<open>kPaint\<close>; \<open>kFill\<close> is also an \<open>EditType\<close>, so the modes carry a suffix here).\<close>

datatype EditType = kNotAffected | kClear | kFill | kProceed

datatype EditMode = kFillMode | kDigMode | kPaintMode

text \<open>
  \<open>hashdag::NodeCoord<uint32_t>\<close>: a level and a position.  Modelled from the spec:
  \<open>GetLowerBoundAtLevel\<close> and \<open>GetUpperBoundAtLevel\<close> are not in the sources.  The children of
  a node halve its cube on each axis, so a node of level \<open>l\<close> at position \<open>pos\<close> covers, in
  units of level \<open>at_level\<close>, the cube from \<open>pos << (at_level - l)\<close> up to, but not
  including, \<open>(pos + 1) << (at_level - l)\<close>.
\<close>

record NodeCoord =
  level :: Word
  pos :: "Word vec3"

definition GetLowerBoundAtLevel :: "NodeCoord \<Rightarrow> Word \<Rightarrow> Word vec3" where
  "GetLowerBoundAtLevel coord at_level =
     map_vec3 (\<lambda>c. push_bit (unat (at_level - level coord)) c) (pos coord)"

definition GetUpperBoundAtLevel :: "NodeCoord \<Rightarrow> Word \<Rightarrow> Word vec3" where
  "GetUpperBoundAtLevel coord at_level =
     map_vec3 (\<lambda>c. push_bit (unat (at_level - level coord)) (c + 1)) (pos coord)"

text \<open>\<open>config.GetVoxelLevel()\<close> as a word.\<close>

definition VoxelLevel :: "Config \<Rightarrow> Word" where
  "VoxelLevel config = of_nat (GetVoxelLevel config)"

text \<open>
  \<open>hashdag::VBRColor\<close> holds one word.  Modelled from the spec: the bits of the default
  constructed colour \<open>{}\<close> are not in the sources; it is the colour with no bit set.
  A \<open>NodePointer\<close> converts to \<open>true\<close> when it is not \<open>Null\<close>.
\<close>

datatype VBRColor = VBRColor (Get: Word)

definition VBRColor_default :: VBRColor where
  "VBRColor_default = VBRColor 0"

definition is_set :: "NodePointer \<Rightarrow> bool" where
  "is_set ptr = (ptr \<noteq> Null)"

subsection \<open>AABBEditor\<close>

record AABBEditor =
  aabb_min :: "Word vec3"
  aabb_max :: "Word vec3"
  color :: VBRColor

definition AABBEditor_EditNode :: "AABBEditor \<Rightarrow> Config \<Rightarrow> NodeCoord \<Rightarrow> NodePointer \<Rightarrow> EditType" where
  "AABBEditor_EditNode e config coord ptr =
     (let lb = GetLowerBoundAtLevel coord (VoxelLevel config);
          ub = GetUpperBoundAtLevel coord (VoxelLevel config)
      in if vec3_any (\<le>) ub (aabb_min e) \<or> vec3_any (\<ge>) lb (aabb_max e) then kNotAffected
         else if vec3_all (\<ge>) lb (aabb_min e) \<and> vec3_all (\<le>) ub (aabb_max e) then kFill
         else kProceed)"

text \<open>The overload with \<open>VBRColor &final_color\<close>: the colour comes in and goes out.\<close>

definition AABBEditor_EditNode_color ::
  "AABBEditor \<Rightarrow> Config \<Rightarrow> NodeCoord \<Rightarrow> NodePointer \<Rightarrow> VBRColor \<Rightarrow> EditType \<times> VBRColor" where
  "AABBEditor_EditNode_color e config coord ptr final_color =
     (let edit_type = AABBEditor_EditNode e config coord Null
      in if edit_type = kFill \<or> \<not> is_set ptr \<or> final_color = AABBEditor.color e
         then (edit_type, AABBEditor.color e)
         else (edit_type, VBRColor_default))"

definition AABBEditor_VoxelInRange :: "AABBEditor \<Rightarrow> NodeCoord \<Rightarrow> bool" where
  "AABBEditor_VoxelInRange e coord =
     (vec3_all (\<ge>) (pos coord) (aabb_min e) \<and> vec3_all (<) (pos coord) (aabb_max e))"

definition AABBEditor_EditVoxel :: "AABBEditor \<Rightarrow> Config \<Rightarrow> NodeCoord \<Rightarrow> bool \<Rightarrow> bool" where
  "AABBEditor_EditVoxel e config coord voxel = (voxel \<or> AABBEditor_VoxelInRange e coord)"

definition AABBEditor_EditVoxel_color ::
  "AABBEditor \<Rightarrow> Config \<Rightarrow> NodeCoord \<Rightarrow> bool \<Rightarrow> VBRColor \<Rightarrow> bool \<times> VBRColor" where
  "AABBEditor_EditVoxel_color e config coord voxel c =
     (let in_range = AABBEditor_VoxelInRange e coord
      in (voxel \<or> in_range, if in_range \<or> \<not> voxel then AABBEditor.color e else c))"

subsection \<open>SphereEditor\<close>

text \<open>
  The distances are \<open>int64_t\<close> and their squares \<open>uint64_t\<close>: 64-bit words, read as signed
  where the source compares a distance with 0.  The arithmetic wraps, as the machine's does.
\<close>

record SphereEditor =
  center :: "Word vec3"
  r2 :: "64 word"
  color :: VBRColor

definition i64vec3 :: "Word vec3 \<Rightarrow> 64 word vec3" where
  "i64vec3 v = map_vec3 ucast v"

definition SphereEditor_EditNode ::
  "EditMode \<Rightarrow> SphereEditor \<Rightarrow> Config \<Rightarrow> NodeCoord \<Rightarrow> NodePointer \<Rightarrow> EditType" where
  "SphereEditor_EditNode Mode e config coord ptr =
     (let lb = GetLowerBoundAtLevel coord (VoxelLevel config);
          ub = GetUpperBoundAtLevel coord (VoxelLevel config);
          lb_dist = vec3_op (-) (i64vec3 lb) (i64vec3 (center e));
          ub_dist = vec3_op (-) (i64vec3 ub) (i64vec3 (center e));
          lb_dist_2 = vec3_op (*) lb_dist lb_dist;
          ub_dist_2 = vec3_op (*) ub_dist ub_dist;
          max_dist_2 = vec3_op max lb_dist_2 ub_dist_2;
          max_n2 = vx max_dist_2 + vy max_dist_2 + vz max_dist_2
      in if max_n2 \<le> r2 e then (if Mode = kDigMode then kClear else kFill)
         else
           let min_n2 = 0;
               min_n2 = (if 0 < sint (vx lb_dist) then min_n2 + vx lb_dist_2 else min_n2);
               min_n2 = (if sint (vx ub_dist) < 0 then min_n2 + vx ub_dist_2 else min_n2);
               min_n2 = (if 0 < sint (vy lb_dist) then min_n2 + vy lb_dist_2 else min_n2);
               min_n2 = (if sint (vy ub_dist) < 0 then min_n2 + vy ub_dist_2 else min_n2);
               min_n2 = (if 0 < sint (vz lb_dist) then min_n2 + vz lb_dist_2 else min_n2);
               min_n2 = (if sint (vz ub_dist) < 0 then min_n2 + vz ub_dist_2 else min_n2)
           in if min_n2 > r2 e then kNotAffected else kProceed)"

text \<open>
  The local \<open>max_n2\<close> of \<open>EditNode\<close>: the largest squared distance from the centre to a corner
  of the node's box, the upper corner \<open>ub\<close> being the first position past the box.
\<close>

definition SphereEditor_max_n2 :: "SphereEditor \<Rightarrow> Config \<Rightarrow> NodeCoord \<Rightarrow> 64 word" where
  "SphereEditor_max_n2 e config coord =
     (let lb = GetLowerBoundAtLevel coord (VoxelLevel config);
          ub = GetUpperBoundAtLevel coord (VoxelLevel config);
          lb_dist = vec3_op (-) (i64vec3 lb) (i64vec3 (center e));
          ub_dist = vec3_op (-) (i64vec3 ub) (i64vec3 (center e));
          lb_dist_2 = vec3_op (*) lb_dist lb_dist;
          ub_dist_2 = vec3_op (*) ub_dist ub_dist;
          max_dist_2 = vec3_op max lb_dist_2 ub_dist_2
      in vx max_dist_2 + vy max_dist_2 + vz max_dist_2)"

text \<open>
  The overload with \<open>VBRColor &final_color\<close>.  It has \<open>static_assert(Mode != EditMode::kDig)\<close>:
  a dig editor has no such method.
\<close>

definition SphereEditor_EditNode_color ::
  "EditMode \<Rightarrow> SphereEditor \<Rightarrow> Config \<Rightarrow> NodeCoord \<Rightarrow> NodePointer \<Rightarrow> VBRColor
     \<Rightarrow> EditType \<times> VBRColor" where
  "SphereEditor_EditNode_color Mode e config coord ptr final_color =
     (let edit_type = SphereEditor_EditNode Mode e config coord Null;
          (edit_type, final_color) =
            (if edit_type = kFill
             then (if Mode = kPaintMode then kNotAffected else edit_type, SphereEditor.color e)
             else if \<not> is_set ptr \<or> final_color = SphereEditor.color e
             then (edit_type, SphereEditor.color e)
             else (edit_type, VBRColor_default));
          edit_type = (if Mode = kPaintMode \<and> \<not> is_set ptr then kNotAffected else edit_type)
      in (edit_type, final_color))"

definition SphereEditor_VoxelInRange :: "SphereEditor \<Rightarrow> NodeCoord \<Rightarrow> bool" where
  "SphereEditor_VoxelInRange e coord =
     (let p_dist = vec3_op (-) (i64vec3 (pos coord)) (i64vec3 (center e));
          p_n2 = vx p_dist * vx p_dist + vy p_dist * vy p_dist + vz p_dist * vz p_dist
      in p_n2 \<le> r2 e)"

definition SphereEditor_EditVoxel ::
  "EditMode \<Rightarrow> SphereEditor \<Rightarrow> Config \<Rightarrow> NodeCoord \<Rightarrow> bool \<Rightarrow> bool" where
  "SphereEditor_EditVoxel Mode e config coord voxel =
     (if Mode = kPaintMode then voxel
      else
        let in_range = SphereEditor_VoxelInRange e coord
        in if Mode = kFillMode then voxel \<or> in_range else voxel \<and> \<not> in_range)"

definition SphereEditor_EditVoxel_color ::
  "EditMode \<Rightarrow> SphereEditor \<Rightarrow> Config \<Rightarrow> NodeCoord \<Rightarrow> bool \<Rightarrow> VBRColor \<Rightarrow> bool \<times> VBRColor" where
  "SphereEditor_EditVoxel_color Mode e config coord voxel c =
     (let in_range = SphereEditor_VoxelInRange e coord
      in (if Mode = kFillMode then voxel \<or> in_range else voxel,
          if in_range \<or> \<not> voxel then SphereEditor.color e else c))"

section \<open>The edit engine (index.md, ``Editing Operations'')\<close>

text \<open>
  The capability set of an editor (the \<open>Editor\<close> concept): \<open>EditNode(config, coord, ptr)\<close> and
  \<open>EditVoxel(config, coord, voxel)\<close>.  The engine calls them as \<open>editor.edit_node(coord, ptr)\<close>
  and \<open>editor.edit_voxel(coord, voxel)\<close>, with the configuration of its pool.
\<close>

record Editor =
  EditNode :: "Config \<Rightarrow> NodeCoord \<Rightarrow> NodePointer \<Rightarrow> EditType"
  EditVoxel :: "Config \<Rightarrow> NodeCoord \<Rightarrow> bool \<Rightarrow> bool"

text \<open>
  Modelled from the spec: the methods of \<open>NodeCoord\<close> the engine uses are not in the sources.
  A node is at the leaf level when its level is \<open>GetLeafLevel\<close>; child \<open>i\<close> of a node is one
  level down, in the octant \<open>i\<close> (``lexicographic over octant index 0..7 (z-y-x major)'');
  voxel \<open>i\<close> of a leaf is at the voxel level, in the 4 x 4 x 4 block of the leaf.
\<close>

definition is_leaf_level :: "Config \<Rightarrow> NodeCoord \<Rightarrow> bool" where
  "is_leaf_level cfg coord = (level coord = of_nat (GetLeafLevel cfg))"

definition get_child_coord :: "NodeCoord \<Rightarrow> nat \<Rightarrow> NodeCoord" where
  "get_child_coord coord i =
     \<lparr>level = level coord + 1,
      pos = Vec3 (2 * vx (pos coord) + of_nat (i mod 2))
                 (2 * vy (pos coord) + of_nat (i div 2 mod 2))
                 (2 * vz (pos coord) + of_nat (i div 4 mod 2))\<rparr>"

definition get_voxel_coord :: "Config \<Rightarrow> NodeCoord \<Rightarrow> nat \<Rightarrow> NodeCoord" where
  "get_voxel_coord cfg coord i =
     \<lparr>level = VoxelLevel cfg,
      pos = Vec3 (4 * vx (pos coord) + of_nat (i mod 4))
                 (4 * vy (pos coord) + of_nat (i div 4 mod 4))
                 (4 * vz (pos coord) + of_nat (i div 16 mod 4))\<rparr>"

text \<open>
  Modelled from the spec: \<open>get_unpacked_node_array\<close>, \<open>get_packed_node_inplace\<close>,
  \<open>get_leaf_array\<close>, \<open>get_voxel_bit\<close>, \<open>set_voxel_bit\<close> and \<open>get_filled_node_pointer\<close> are not
  in the sources.  The unpacked array has nine words, the childmask and the eight children
  (the engine reads child \<open>i\<close> at index \<open>i + 1\<close>).  A stored inner node is the childmask
  followed by the children that are not \<open>Null\<close>, \<open>Filled\<close> children by their full pointer
  value (``the childmask marks non-Null; Filled requires the full pointer value'').  \<open>Null\<close>
  unpacks to eight \<open>Null\<close> children and to a leaf of zeros, \<open>Filled\<close> to eight \<open>Filled\<close>
  children and to a leaf of ones.  A filled subtree of any level is the \<open>Filled\<close> sentinel.
\<close>

fun expand_children :: "bool list \<Rightarrow> Word list \<Rightarrow> Word list" where
  "expand_children [] cs = []"
| "expand_children (False # bs) cs = Null # expand_children bs cs"
| "expand_children (True # bs) [] = Null # expand_children bs []"
| "expand_children (True # bs) (c # cs) = c # expand_children bs cs"

definition get_unpacked_node_array :: "Config \<Rightarrow> NodePool \<Rightarrow> NodePointer \<Rightarrow> Word list" where
  "get_unpacked_node_array cfg pool node =
     (if node = Null then 0 # replicate 8 Null
      else if node = Filled then 0xFF # replicate 8 Filled
      else
        let a = unat node; childmask = mem pool a
        in childmask # expand_children (map (bit childmask) [0..<8])
             (map (\<lambda>j. mem pool (a + 1 + j)) [0..<popcount8 childmask]))"

definition childmask_of :: "Word list \<Rightarrow> Word" where
  "childmask_of cs = horner_sum of_bool 2 (map (\<lambda>c. c \<noteq> Null) cs)"

definition get_packed_node_inplace :: "Word list \<Rightarrow> Word list" where
  "get_packed_node_inplace children =
     childmask_of (tl children) # filter (\<lambda>c. c \<noteq> Null) (tl children)"

definition get_leaf_array :: "NodePool \<Rightarrow> NodePointer \<Rightarrow> Word list" where
  "get_leaf_array pool leaf =
     (if leaf = Null then [0, 0]
      else if leaf = Filled then [0xFFFFFFFF, 0xFFFFFFFF]
      else [mem pool (unat leaf), mem pool (unat leaf + 1)])"

definition get_voxel_bit :: "Word list \<Rightarrow> nat \<Rightarrow> bool" where
  "get_voxel_bit leaf_data i = bit (leaf_data ! (i div 32)) (i mod 32)"

definition set_voxel_bit :: "Word list \<Rightarrow> nat \<Rightarrow> bool \<Rightarrow> Word list" where
  "set_voxel_bit leaf_data i v =
     leaf_data[i div 32 := (if v then set_bit (i mod 32) (leaf_data ! (i div 32))
                            else unset_bit (i mod 32) (leaf_data ! (i div 32)))]"

definition get_filled_node_pointer :: "Word \<Rightarrow> NodePointer" where
  "get_filled_node_pointer lvl = Filled"

text \<open>
  Modelled from the spec: \<open>upsert_leaf\<close> and \<open>upsert_inner_node\<close> are not in the sources.
  They normalize and then upsert: ``a leaf whose 64 bits are all 0 MUST be normalized to Null
  before upsert; a leaf whose 64 bits are all 1 MUST be normalized to Filled.  An inner node
  with every child Null MUST be normalized to Null; every child Filled MUST normalize to
  Filled.''
\<close>

definition all_null_node :: "Word list" where
  "all_null_node = [0]"

definition all_filled_node :: "Word list" where
  "all_filled_node = 0xFF # replicate 8 Filled"

definition upsert_leaf :: "Config \<Rightarrow> NodePool \<Rightarrow> nat \<Rightarrow> Word list \<Rightarrow> error + NodePointer \<times> NodePool" where
  "upsert_leaf cfg pool lvl leaf_data =
     (if leaf_data = [0, 0] then Inr (Null, pool)
      else if leaf_data = [0xFFFFFFFF, 0xFFFFFFFF] then Inr (Filled, pool)
      else upsert_node cfg pool lvl leaf_data)"

definition upsert_inner_node :: "Config \<Rightarrow> NodePool \<Rightarrow> nat \<Rightarrow> Word list \<Rightarrow> error + NodePointer \<times> NodePool" where
  "upsert_inner_node cfg pool lvl packed_node =
     (if packed_node = all_null_node then Inr (Null, pool)
      else if packed_node = all_filled_node then Inr (Filled, pool)
      else upsert_node cfg pool lvl packed_node)"

text \<open>
  \<open>edit_leaf\<close>: the loop over the 64 voxels of the leaf, then the upsert of the new leaf when
  a voxel changed.
\<close>

definition edit_leaf_voxel :: "Config \<Rightarrow> Editor \<Rightarrow> NodeCoord \<Rightarrow> nat \<Rightarrow> Word list \<times> bool \<Rightarrow> Word list \<times> bool" where
  "edit_leaf_voxel cfg editor coord i st =
     (let (leaf_data, changed) = st;
          voxel_coord = get_voxel_coord cfg coord i;
          old_voxel = get_voxel_bit leaf_data i;
          new_voxel = EditVoxel editor cfg voxel_coord old_voxel
      in if old_voxel \<noteq> new_voxel then (set_voxel_bit leaf_data i new_voxel, True)
         else (leaf_data, changed))"

definition edit_leaf ::
  "Config \<Rightarrow> Editor \<Rightarrow> NodePool \<Rightarrow> NodePointer \<Rightarrow> NodeCoord \<Rightarrow> error + NodePointer \<times> NodePool" where
  "edit_leaf cfg editor pool leaf coord =
     (let (leaf_data, changed) =
            fold (edit_leaf_voxel cfg editor coord) [0..<64] (get_leaf_array pool leaf, False)
      in if \<not> changed then Inr (leaf, pool)
         else upsert_leaf cfg pool (unat (level coord)) leaf_data)"

text \<open>The number of levels between a level and the leaf level, counted as the words count.\<close>

definition levels_to_leaf :: "Config \<Rightarrow> Word \<Rightarrow> nat" where
  "levels_to_leaf cfg l = unat (of_nat (GetLeafLevel cfg) - l)"

text \<open>
  \<open>edit_node\<close> and \<open>edit_inner_node\<close>.  \<open>edit_child\<close> is the body of the loop of
  \<open>edit_inner_node\<close> for one child: it asks the editor and returns the new child, whether
  the loop sets \<open>changed\<close>, and the pool; \<open>edit_children\<close> is the loop from child \<open>i\<close> on.
  The children are edited one after the other.
\<close>

function
  edit_node :: "Config \<Rightarrow> Editor \<Rightarrow> NodePool \<Rightarrow> NodePointer \<Rightarrow> NodeCoord
      \<Rightarrow> error + NodePointer \<times> NodePool"
  and edit_inner_node :: "Config \<Rightarrow> Editor \<Rightarrow> NodePool \<Rightarrow> NodePointer \<Rightarrow> NodeCoord
      \<Rightarrow> error + NodePointer \<times> NodePool"
  and edit_children :: "Config \<Rightarrow> Editor \<Rightarrow> NodePool \<Rightarrow> NodeCoord \<Rightarrow> Word list \<Rightarrow> bool \<Rightarrow> nat
      \<Rightarrow> error + Word list \<times> bool \<times> NodePool"
  and edit_child :: "Config \<Rightarrow> Editor \<Rightarrow> NodePool \<Rightarrow> NodePointer \<Rightarrow> NodeCoord
      \<Rightarrow> error + NodePointer \<times> bool \<times> NodePool"
where
  "edit_node cfg editor pool node coord =
     (if is_leaf_level cfg coord then edit_leaf cfg editor pool node coord
      else edit_inner_node cfg editor pool node coord)"
| "edit_inner_node cfg editor pool node coord =
     (case edit_children cfg editor pool coord (get_unpacked_node_array cfg pool node) False 0 of
        Inl e \<Rightarrow> Inl e
      | Inr (children, changed, pool') \<Rightarrow>
          if \<not> changed then Inr (node, pool')
          else upsert_inner_node cfg pool' (unat (level coord)) (get_packed_node_inplace children))"
| "edit_children cfg editor pool coord children changed i =
     (if i < 8 then
        case edit_child cfg editor pool (children ! (i + 1)) (get_child_coord coord i) of
          Inl e \<Rightarrow> Inl e
        | Inr (new_child, child_changed, pool') \<Rightarrow>
            edit_children cfg editor pool' coord (children[i + 1 := new_child])
              (changed \<or> child_changed) (i + 1)
      else Inr (children, changed, pool))"
| "edit_child cfg editor pool child child_coord =
     (case EditNode editor cfg child_coord child of
        kNotAffected \<Rightarrow> Inr (child, False, pool)
      | kClear \<Rightarrow> Inr (Null, True, pool)
      | kFill \<Rightarrow> Inr (get_filled_node_pointer (level child_coord + 1), True, pool)
      | kProceed \<Rightarrow>
          (case edit_node cfg editor pool child child_coord of
             Inl e \<Rightarrow> Inl e
           | Inr (new_child, pool') \<Rightarrow> Inr (new_child, new_child \<noteq> child, pool')))"
  by pat_completeness auto


lemma levels_to_leaf_Suc:
  "l \<noteq> of_nat (GetLeafLevel cfg) \<Longrightarrow> levels_to_leaf cfg l = Suc (levels_to_leaf cfg (l + 1))"
proof -
  assume "l \<noteq> of_nat (GetLeafLevel cfg)"
  then have nz: "of_nat (GetLeafLevel cfg) - l \<noteq> 0" by simp
  have eq: "of_nat (GetLeafLevel cfg) - (l + 1) = of_nat (GetLeafLevel cfg) - l - 1" by simp
  have "levels_to_leaf cfg (l + 1) = levels_to_leaf cfg l - 1"
    unfolding levels_to_leaf_def eq by (rule unat_minus_one [OF nz])
  moreover from nz have "0 < levels_to_leaf cfg l"
    by (simp add: levels_to_leaf_def unat_gt_0)
  ultimately show ?thesis by simp
qed

text \<open>
  The recursion ends: the level is a word, each call of \<open>edit_node\<close> from the loop is one
  level further, and the levels reach the leaf level.
\<close>

termination edit_node
proof (relation "measure (\<lambda>x. case x of
      Inl (Inl (cfg, ed, pool, node, coord)) \<Rightarrow> 11 * levels_to_leaf cfg (level coord)
    | Inl (Inr (cfg, ed, pool, node, coord)) \<Rightarrow> 11 * levels_to_leaf cfg (level coord + 1) + 10
    | Inr (Inl (cfg, ed, pool, coord, children, changed, i)) \<Rightarrow>
        11 * levels_to_leaf cfg (level coord + 1) + 9 - i
    | Inr (Inr (cfg, ed, pool, child, coord)) \<Rightarrow> 11 * levels_to_leaf cfg (level coord) + 1)", goal_cases)
  case 1
  then show ?case by simp
next
  case (2 cfg editor pool node coord)
  then show ?case by (simp add: is_leaf_level_def levels_to_leaf_Suc)
next
  case (3 cfg editor pool node coord)
  then show ?case by simp
next
  case (4 cfg editor pool coord children changed i)
  then show ?case by (simp add: get_child_coord_def)
next
  case (5 cfg editor pool coord children changed i x2 x y xa ya)
  then show ?case by simp
next
  case (6 cfg editor pool child child_coord)
  then show ?case by simp
qed

declare edit_node.simps [simp del] edit_inner_node.simps [simp del]
  edit_children.simps [simp del] edit_child.simps [simp del]

text \<open>
  Reading a voxel (``decode''): \<open>Null\<close> is an empty subtree, \<open>Filled\<close> a full one, and a stored
  node is read through its children.  Modelled from the spec: the traversal is not in the
  sources.  The path is the octant taken at each inner level, \<open>v\<close> the index of the voxel in
  the leaf.
\<close>

fun get_voxel :: "Config \<Rightarrow> NodePool \<Rightarrow> NodePointer \<Rightarrow> nat list \<Rightarrow> nat \<Rightarrow> bool" where
  "get_voxel cfg pool node [] v = get_voxel_bit (get_leaf_array pool node) v"
| "get_voxel cfg pool node (i # path) v =
     get_voxel cfg pool (get_unpacked_node_array cfg pool node ! (i + 1)) path v"

text \<open>
  Modelled from the spec: \<open>StatelessEditorWrapper\<close> and \<open>VBREditorWrapper\<close> are not in the
  sources.  They present an editor of main.cpp to the engine.  The second one ``threads a
  mutable colour argument through both methods'': the geometry descent takes the decisions of
  the colour-threading overloads.  The colour the wrapper passes in at a node or a voxel is
  not known; it is a parameter.
\<close>

definition StatelessEditorWrapper_Sphere :: "EditMode \<Rightarrow> SphereEditor \<Rightarrow> Editor" where
  "StatelessEditorWrapper_Sphere Mode e =
     \<lparr>EditNode = SphereEditor_EditNode Mode e,
      EditVoxel = SphereEditor_EditVoxel Mode e\<rparr>"

definition VBREditorWrapper_Sphere ::
  "EditMode \<Rightarrow> SphereEditor \<Rightarrow> (NodeCoord \<Rightarrow> NodePointer \<Rightarrow> VBRColor)
     \<Rightarrow> (NodeCoord \<Rightarrow> bool \<Rightarrow> VBRColor) \<Rightarrow> Editor" where
  "VBREditorWrapper_Sphere Mode e node_color voxel_color =
     \<lparr>EditNode = (\<lambda>config coord ptr.
         fst (SphereEditor_EditNode_color Mode e config coord ptr (node_color coord ptr))),
      EditVoxel = (\<lambda>config coord voxel.
         fst (SphereEditor_EditVoxel_color Mode e config coord voxel (voxel_color coord voxel)))\<rparr>"

text \<open>
  An editor that leaves the geometry alone: it never decides \<open>kClear\<close> or \<open>kFill\<close>, and
  it returns every voxel as it is.
\<close>

definition keeps_geometry :: "Editor \<Rightarrow> bool" where
  "keeps_geometry editor =
     ((\<forall>cfg c p. EditNode editor cfg c p = kNotAffected \<or> EditNode editor cfg c p = kProceed)
      \<and> (\<forall>cfg c v. EditVoxel editor cfg c v = v))"

text \<open>A sphere of radius \<open>sqrt 12\<close> around the voxel (6, 6, 6), and two coordinates.\<close>

definition small_sphere :: SphereEditor where
  "small_sphere = \<lparr>center = Vec3 6 6 6, r2 = 12, color = VBRColor 255\<rparr>"

definition root_coord :: NodeCoord where
  "root_coord = \<lparr>level = 0, pos = Vec3 0 0 0\<rparr>"

definition last_leaf_coord :: NodeCoord where
  "last_leaf_coord = \<lparr>level = 1, pos = Vec3 1 1 1\<rparr>"

text \<open>Editors that take the same decision everywhere and return every voxel as it is.\<close>

definition const_editor :: "EditType \<Rightarrow> Editor" where
  "const_editor d = \<lparr>EditNode = (\<lambda>config coord ptr. d), EditVoxel = (\<lambda>config coord voxel. voxel)\<rparr>"

section \<open>What the engine keeps and computes\<close>

text \<open>
  The voxel the loop of \<open>edit_leaf\<close> writes at index \<open>v\<close>: what the editor returns for the
  bit that was there.
\<close>

definition new_voxel :: "Config \<Rightarrow> Editor \<Rightarrow> NodeCoord \<Rightarrow> Word list \<Rightarrow> nat \<Rightarrow> bool" where
  "new_voxel cfg editor coord ld v = EditVoxel editor cfg (get_voxel_coord cfg coord v) (get_voxel_bit ld v)"

text \<open>The node \<open>get_packed_node_inplace\<close> makes of eight children.\<close>

definition pack8 :: "Word list \<Rightarrow> Word list" where
  "pack8 cs = childmask_of cs # filter (\<lambda>c. c \<noteq> Null) cs"

text \<open>
  A pointer the engine may hold for a subtree: a sentinel, or an address that holds a
  normalized node of the subtree's level whose children are such pointers again.  \<open>good_ptr\<close>
  counts the levels down to the leaves; \<open>valid_ptr\<close> takes the level.
\<close>

primrec good_ptr :: "Config \<Rightarrow> NodePool \<Rightarrow> nat \<Rightarrow> NodePointer \<Rightarrow> bool" where
  "good_ptr cfg pool 0 p =
     (p = Null \<or> p = Filled
      \<or> (\<exists>node. held cfg pool (GetLeafLevel cfg) p node
            \<and> node \<noteq> [0, 0] \<and> node \<noteq> [0xFFFFFFFF, 0xFFFFFFFF]))"
| "good_ptr cfg pool (Suc d) p =
     (p = Null \<or> p = Filled
      \<or> (\<exists>cs. length cs = 8 \<and> held cfg pool (GetLeafLevel cfg - Suc d) p (pack8 cs)
            \<and> (\<forall>c \<in> set cs. good_ptr cfg pool d c)
            \<and> cs \<noteq> replicate 8 Null \<and> cs \<noteq> replicate 8 Filled))"

definition valid_ptr :: "Config \<Rightarrow> NodePool \<Rightarrow> nat \<Rightarrow> NodePointer \<Rightarrow> bool" where
  "valid_ptr cfg pool lvl p = good_ptr cfg pool (GetLeafLevel cfg - lvl) p"

text \<open>
  The nodes the buckets store are closed under children and normalized: a stored inner node
  is the packing of eight pointers of the next level, not all of them \<open>Null\<close> and not all of
  them \<open>Filled\<close>; a stored leaf has two words, not both 0 and not both all ones.
\<close>

definition pool_closed :: "Config \<Rightarrow> NodePool \<Rightarrow> bool" where
  "pool_closed cfg pool =
     ((\<forall>lvl p node. lvl < GetLeafLevel cfg \<and> stored cfg pool lvl p node \<longrightarrow>
         (\<exists>cs. length cs = 8 \<and> node = pack8 cs \<and> (\<forall>c \<in> set cs. valid_ptr cfg pool (Suc lvl) c)
              \<and> cs \<noteq> replicate 8 Null \<and> cs \<noteq> replicate 8 Filled))
      \<and> (\<forall>p node. stored cfg pool (GetLeafLevel cfg) p node \<longrightarrow>
         length node = 2 \<and> node \<noteq> [0, 0] \<and> node \<noteq> [0xFFFFFFFF, 0xFFFFFFFF]))"

definition engine_inv :: "Config \<Rightarrow> NodePool \<Rightarrow> bool" where
  "engine_inv cfg pool = (pool_inv cfg pool \<and> pool_closed cfg pool)"

text \<open>
  A voxel is addressed from a node by the octant taken at each inner level and the index in
  the leaf.
\<close>

definition path_ok :: "nat list \<Rightarrow> nat \<Rightarrow> bool" where
  "path_ok path v = ((\<forall>i \<in> set path. i < 8) \<and> v < 64)"

text \<open>
  What an edit has to leave at a voxel, read off the decisions of the editor on the way down:
  the old voxel under \<open>kNotAffected\<close>, empty under \<open>kClear\<close>, full under \<open>kFill\<close>, and at
  the leaf what \<open>EditVoxel\<close> returns for the old bit.
\<close>

fun edited_voxel ::
  "Config \<Rightarrow> Editor \<Rightarrow> NodePool \<Rightarrow> NodePointer \<Rightarrow> NodeCoord \<Rightarrow> nat list \<Rightarrow> nat \<Rightarrow> bool" where
  "edited_voxel cfg editor pool node coord [] v =
     EditVoxel editor cfg (get_voxel_coord cfg coord v) (get_voxel_bit (get_leaf_array pool node) v)"
| "edited_voxel cfg editor pool node coord (i # path) v =
     (let child = get_unpacked_node_array cfg pool node ! (i + 1);
          child_coord = get_child_coord coord i
      in case EditNode editor cfg child_coord child of
           kNotAffected \<Rightarrow> get_voxel cfg pool child path v
         | kClear \<Rightarrow> False
         | kFill \<Rightarrow> True
         | kProceed \<Rightarrow> edited_voxel cfg editor pool child child_coord path v)"

definition child_voxel ::
  "Config \<Rightarrow> Editor \<Rightarrow> NodePool \<Rightarrow> NodePointer \<Rightarrow> NodeCoord \<Rightarrow> nat list \<Rightarrow> nat \<Rightarrow> bool" where
  "child_voxel cfg editor pool child child_coord path v =
     (case EditNode editor cfg child_coord child of
        kNotAffected \<Rightarrow> get_voxel cfg pool child path v
      | kClear \<Rightarrow> False
      | kFill \<Rightarrow> True
      | kProceed \<Rightarrow> edited_voxel cfg editor pool child child_coord path v)"

text \<open>
  What \<open>edit_node\<close>, the loop body and the loop of \<open>edit_inner_node\<close> establish when they
  return: the invariant, a pool that only grew, a pointer of the level, and the voxels the
  decisions ask for.  The loop from child \<open>i\<close> on leaves the children before \<open>i\<close> alone, and
  reports no change only when nothing changed.
\<close>

definition edit_post ::
  "Config \<Rightarrow> Editor \<Rightarrow> NodePool \<Rightarrow> NodePointer \<Rightarrow> NodeCoord \<Rightarrow> NodePointer \<Rightarrow> NodePool \<Rightarrow> bool" where
  "edit_post cfg editor pool node coord node' pool' =
     (engine_inv cfg pool' \<and> pool_ext cfg pool pool'
      \<and> valid_ptr cfg pool' (unat (level coord)) node'
      \<and> (\<forall>path v. length path = GetLeafLevel cfg - unat (level coord) \<longrightarrow> path_ok path v \<longrightarrow>
            get_voxel cfg pool' node' path v = edited_voxel cfg editor pool node coord path v))"

definition child_post ::
  "Config \<Rightarrow> Editor \<Rightarrow> NodePool \<Rightarrow> NodePointer \<Rightarrow> NodeCoord \<Rightarrow> NodePointer \<Rightarrow> bool \<Rightarrow> NodePool \<Rightarrow> bool" where
  "child_post cfg editor pool child coord new_child child_changed pool' =
     (engine_inv cfg pool' \<and> pool_ext cfg pool pool'
      \<and> valid_ptr cfg pool' (unat (level coord)) new_child
      \<and> (\<not> child_changed \<longrightarrow> new_child = child)
      \<and> (\<forall>path v. length path = GetLeafLevel cfg - unat (level coord) \<longrightarrow> path_ok path v \<longrightarrow>
            get_voxel cfg pool' new_child path v = child_voxel cfg editor pool child coord path v))"

definition children_post ::
  "Config \<Rightarrow> Editor \<Rightarrow> NodePool \<Rightarrow> NodeCoord \<Rightarrow> Word list \<Rightarrow> bool \<Rightarrow> nat
     \<Rightarrow> Word list \<Rightarrow> bool \<Rightarrow> NodePool \<Rightarrow> bool" where
  "children_post cfg editor pool coord children changed i children' changed' pool' =
     (engine_inv cfg pool' \<and> pool_ext cfg pool pool' \<and> length children' = 9
      \<and> (\<forall>j < 8. valid_ptr cfg pool' (Suc (unat (level coord))) (children' ! (j + 1)))
      \<and> (\<forall>j < 8. j < i \<longrightarrow> children' ! (j + 1) = children ! (j + 1))
      \<and> (\<not> changed' \<longrightarrow> \<not> changed \<and> (\<forall>j < 8. children' ! (j + 1) = children ! (j + 1)))
      \<and> (\<forall>j < 8. i \<le> j \<longrightarrow>
           (\<forall>path v. length path = GetLeafLevel cfg - Suc (unat (level coord)) \<longrightarrow>
              path_ok path v \<longrightarrow>
              get_voxel cfg pool' (children' ! (j + 1)) path v
                = child_voxel cfg editor pool (children ! (j + 1)) (get_child_coord coord j) path v)))"

text \<open>
  Modelled from the spec: the \<open>StatelessEditorWrapper\<close> of an \<open>AABBEditor\<close>, as for the
  sphere.
\<close>

definition StatelessEditorWrapper_AABB :: "AABBEditor \<Rightarrow> Editor" where
  "StatelessEditorWrapper_AABB e =
     \<lparr>EditNode = AABBEditor_EditNode e, EditVoxel = AABBEditor_EditVoxel e\<rparr>"

text \<open>
  The application edits the world from its root and takes the root the edit returns as the
  new root (\<open>edit\<close> and \<open>set_root\<close> in main.cpp), one edit at a time.  \<open>edits\<close> runs a
  sequence of editors over a world, a root and its pool; the first world is the empty one,
  \<open>Null\<close> over \<open>NodePool_empty\<close>.
\<close>

primrec edits :: "Config \<Rightarrow> Editor list \<Rightarrow> NodePointer \<times> NodePool \<Rightarrow> error + NodePointer \<times> NodePool" where
  "edits cfg [] world = Inr world"
| "edits cfg (editor # editors) world =
     (case edit_node cfg editor (snd world) (fst world) root_coord of
        Inl e \<Rightarrow> Inl e
      | Inr world' \<Rightarrow> edits cfg editors world')"

text \<open>The occupied voxels of a world.\<close>

definition occupied :: "Config \<Rightarrow> NodePool \<Rightarrow> NodePointer \<Rightarrow> (nat list \<times> nat) set" where
  "occupied cfg pool root =
     {(path, v). length path = GetLeafLevel cfg \<and> path_ok path v \<and> get_voxel cfg pool root path v}"

text \<open>
  An editor that never adds a voxel: it never decides \<open>kFill\<close>, and \<open>EditVoxel\<close> returns
  true only for a voxel that was set.
\<close>

definition never_fills :: "Editor \<Rightarrow> bool" where
  "never_fills editor =
     ((\<forall>cfg c p. EditNode editor cfg c p \<noteq> kFill)
      \<and> (\<forall>cfg c v. EditVoxel editor cfg c v \<longrightarrow> v))"

text \<open>
  A configuration of two levels with buckets of 16 words, an 8 x 8 x 8 world; a sphere of
  radius \<open>sqrt 3\<close> at the corner of the world; the box of the whole world.
\<close>

definition wide_config :: Config where
  "wide_config = \<lparr>word_bits_per_page = 4, page_bits_per_bucket = 0,
                   bucket_bits_each_level = [0, 1], hasher = (\<lambda>ws. hd ws AND 1)\<rparr>"

definition corner_sphere :: SphereEditor where
  "corner_sphere = \<lparr>center = Vec3 0 0 0, r2 = 3, color = VBRColor 255\<rparr>"

definition whole_box :: AABBEditor where
  "whole_box = \<lparr>aabb_min = Vec3 0 0 0, aabb_max = Vec3 8 8 8, color = VBRColor 255\<rparr>"

subsection \<open>Editors and boxes of the examples\<close>

text \<open>
  An editor that decides \<open>d\<close> for the root and \<open>kNotAffected\<close> for every other node, and one
  that clears the first child of the root, fills the second and leaves the others alone.
\<close>

definition root_editor :: "EditType \<Rightarrow> Editor" where
  "root_editor d =
     \<lparr>EditNode = (\<lambda>config coord ptr. if level coord = 0 then d else kNotAffected),
      EditVoxel = (\<lambda>config coord voxel. voxel)\<rparr>"

definition corner_editor :: Editor where
  "corner_editor =
     \<lparr>EditNode = (\<lambda>config coord ptr.
         if level coord = 1 \<and> pos coord = Vec3 0 0 0 then kClear
         else if level coord = 1 \<and> pos coord = Vec3 1 0 0 then kFill
         else kNotAffected),
      EditVoxel = (\<lambda>config coord voxel. voxel)\<rparr>"





definition world_sphere :: SphereEditor where
  "world_sphere = \<lparr>center = Vec3 4 4 4, r2 = 48, color = VBRColor 255\<rparr>"

section \<open>Properties of the paged store\<close>

lemma length_copy_words [simp]: "length (copy_words data page offset) = length page"
  by (induction data arbitrary: page offset) simp_all

lemma nth_copy_words:
  "offset + length data \<le> length page \<Longrightarrow> k < length page \<Longrightarrow>
   copy_words data page offset ! k =
     (if offset \<le> k \<and> k < offset + length data then Some (data ! (k - offset)) else page ! k)"
proof (induction data arbitrary: page offset)
  case Nil
  then show ?case by auto
next
  case (Cons w ws)
  have "copy_words ws (page[offset := Some w]) (Suc offset) ! k =
        (if Suc offset \<le> k \<and> k < Suc offset + length ws then Some (ws ! (k - Suc offset))
         else page[offset := Some w] ! k)"
    using Cons.prems by (intro Cons.IH) simp_all
  then show ?case
    using Cons.prems by (auto simp: nth_list_update nth_Cons' Suc_diff_Suc not_less_eq_eq)
qed

lemma pool_wf_new: "pool_wf (DAGNodePool_new wpp n)"
  by (simp add: pool_wf_def DAGNodePool_new_def)

lemma pool_wf_nth:
  "pool_wf pool \<Longrightarrow> i < length (m_pages pool) \<Longrightarrow> m_pages pool ! i = Some b \<Longrightarrow>
   length b = words_per_page pool"
  unfolding pool_wf_def using nth_mem by fastforce

lemma WritePage_shape:
  assumes "WritePage pool page_id offset data = Inr pool'"
  shows "words_per_page pool' = words_per_page pool"
    and "length (m_pages pool') = length (m_pages pool)"
  using assms by (auto simp: WritePage_def Let_def split: if_splits)

lemma WritePage_wf:
  assumes "WritePage pool page_id offset data = Inr pool'" and "pool_wf pool"
  shows "pool_wf pool'"
proof -
  from assms(1) have in_range: "page_id < length (m_pages pool)"
    by (auto simp: WritePage_def split: if_splits)
  show ?thesis
    unfolding pool_wf_def
  proof (intro ballI allI impI)
    fix p b assume p: "p \<in> set (m_pages pool')" and b: "p = Some b"
    from p obtain i where i: "i < length (m_pages pool')" "m_pages pool' ! i = p"
      by (auto simp: in_set_conv_nth)
    show "length b = words_per_page pool'"
    proof (cases "i = page_id")
      case True
      with assms(1) i b in_range pool_wf_nth [OF assms(2) in_range] show ?thesis
        by (auto simp: WritePage_def Let_def split: if_splits option.splits)
    next
      case False
      with assms(1) i b have "m_pages pool ! i = Some b" "i < length (m_pages pool)"
        by (auto simp: WritePage_def Let_def split: if_splits)
      from pool_wf_nth [OF assms(2) this(2) this(1)] WritePage_shape(1) [OF assms(1)]
      show ?thesis by simp
    qed
  qed
qed

lemma WritePage_cell:
  assumes "WritePage pool page_id offset data = Inr pool'" and "pool_wf pool"
    and "q < length (m_pages pool)" and "k < words_per_page pool"
  shows "page_cell pool' q k =
           (if page_id = q \<and> offset \<le> k \<and> k < offset + length data
            then Some (data ! (k - offset)) else page_cell pool q k)"
proof (cases "page_id = q")
  case False
  with assms show ?thesis
    by (auto simp: WritePage_def Let_def page_cell_def split: if_splits)
next
  case True
  from assms(1) have bounds: "offset + length data \<le> words_per_page pool"
    by (auto simp: WritePage_def split: if_splits)
  show ?thesis
  proof (cases "m_pages pool ! q")
    case None
    with assms True bounds show ?thesis
      by (auto simp: WritePage_def Let_def page_cell_def nth_copy_words split: if_splits)
  next
    case (Some b)
    with assms(2,3) have "length b = words_per_page pool"
      by (auto simp: pool_wf_def dest: nth_mem)
    with assms True bounds Some show ?thesis
      by (auto simp: WritePage_def Let_def page_cell_def nth_copy_words split: if_splits)
  qed
qed

lemma WritePage_resident:
  assumes "WritePage pool page_id offset data = Inr pool'" and "q < length (m_pages pool)"
  shows "m_pages pool' ! q = None \<longleftrightarrow> q \<noteq> page_id \<and> m_pages pool ! q = None"
  using assms by (cases "q = page_id") (auto simp: WritePage_def Let_def split: if_splits)

lemma WritePages_pages:
  assumes "WritePages pool ws = Inr pool'" and "pool_wf pool" and "q < length (m_pages pool)"
  shows "pool_wf pool' \<and> words_per_page pool' = words_per_page pool
       \<and> length (m_pages pool') = length (m_pages pool)
       \<and> (m_pages pool' ! q = None \<longleftrightarrow> never_written ws q \<and> m_pages pool ! q = None)"
  using assms
proof (induction ws arbitrary: pool)
  case Nil
  then show ?case by (simp add: never_written_def)
next
  case (Cons w ws)
  obtain p offset data where w: "w = (p, offset, data)" by (cases w)
  from Cons.prems(1) w obtain pool1 where
    step: "WritePage pool p offset data = Inr pool1" and rest: "WritePages pool1 ws = Inr pool'"
    by (auto split: sum.splits)
  note shape = WritePage_shape [OF step]
  have wf1: "pool_wf pool1" using step Cons.prems(2) by (rule WritePage_wf)
  have q1: "q < length (m_pages pool1)" using Cons.prems(3) shape by simp
  note IH = Cons.IH [OF rest wf1 q1]
  have res: "m_pages pool1 ! q = None \<longleftrightarrow> q \<noteq> p \<and> m_pages pool ! q = None"
    using step Cons.prems(3) by (rule WritePage_resident)
  show ?case
    using IH res shape w by (auto simp: never_written_def)
qed

lemma WritePages_cell:
  assumes "WritePages pool ws = Inr pool'" and "pool_wf pool"
    and "q < length (m_pages pool)" and "k < words_per_page pool"
  shows "page_cell pool' q k = written_cell ws q k (page_cell pool q k)"
  using assms
proof (induction ws arbitrary: pool)
  case Nil
  then show ?case by simp
next
  case (Cons w ws)
  obtain p offset data where w: "w = (p, offset, data)" by (cases w)
  from Cons.prems(1) w obtain pool1 where
    step: "WritePage pool p offset data = Inr pool1" and rest: "WritePages pool1 ws = Inr pool'"
    by (auto split: sum.splits)
  note shape = WritePage_shape [OF step]
  have wf1: "pool_wf pool1" using step Cons.prems(2) by (rule WritePage_wf)
  have q1: "q < length (m_pages pool1)" and k1: "k < words_per_page pool1"
    using Cons.prems(3,4) shape by simp_all
  note IH = Cons.IH [OF rest wf1 q1 k1]
  have cell: "page_cell pool1 q k =
           (if p = q \<and> offset \<le> k \<and> k < offset + length data
            then Some (data ! (k - offset)) else page_cell pool q k)"
    using step Cons.prems(2,3,4) by (rule WritePage_cell)
  show ?case
    using IH cell w by simp
qed

text \<open>
  C5 (as the spec states it): \<open>read_page\<close> returns the all-zeros page for a page that has never
  been written.  It does not: in a pool that was just created, page 1 has no buffer and
  \<open>ReadPage\<close> returns the null pointer, not a buffer of zeros.
\<close>

theorem C5_ReadPage_zeros_counterexample:
  "ReadPage (DAGNodePool_new 4 2) 1 = Inr None
   \<and> ReadPage (DAGNodePool_new 4 2) 1 \<noteq> Inr (Some (replicate 4 (Some 0)))"
  by (simp add: ReadPage_def DAGNodePool_new_def)

text \<open>
  C5 (amended): after any history of successful writes to a new pool, \<open>ReadPage\<close> of a page
  in range never fails; for a page that was never written it returns the null pointer, and
  for a page that was written it returns the page's buffer, whose cell \<open>k\<close> holds the word of
  the last write that covered \<open>k\<close> (and is indeterminate when no write covered it).
\<close>

theorem C5_ReadPage:
  assumes "WritePages (DAGNodePool_new wpp n) ws = Inr pool" and "page_id < n"
  shows "(never_written ws page_id \<longrightarrow> ReadPage pool page_id = Inr None)
       \<and> (\<not> never_written ws page_id \<longrightarrow>
            (\<exists>buf. ReadPage pool page_id = Inr (Some buf) \<and> length buf = wpp
                 \<and> (\<forall>k < wpp. buf ! k = written_cell ws page_id k None)))"
proof -
  let ?new = "DAGNodePool_new wpp n"
  have len0: "length (m_pages ?new) = n" and wpp0: "words_per_page ?new = wpp"
    and none0: "m_pages ?new ! page_id = None"
    using assms(2) by (simp_all add: DAGNodePool_new_def)
  have q: "page_id < length (m_pages ?new)" using assms(2) len0 by simp
  from WritePages_pages [OF assms(1) pool_wf_new q] len0 wpp0 none0
  have wf: "pool_wf pool" and wpp_pool: "words_per_page pool = wpp"
    and len: "length (m_pages pool) = n"
    and res: "m_pages pool ! page_id = None \<longleftrightarrow> never_written ws page_id"
    by simp_all
  have in_range: "page_id < length (m_pages pool)" using len assms(2) by simp
  show ?thesis
  proof (intro conjI impI)
    assume "never_written ws page_id"
    with res in_range show "ReadPage pool page_id = Inr None"
      by (simp add: ReadPage_def)
  next
    assume "\<not> never_written ws page_id"
    with res obtain buf where buf: "m_pages pool ! page_id = Some buf" by auto
    from pool_wf_nth [OF wf in_range buf] wpp_pool have lenb: "length buf = wpp" by simp
    have cells: "\<forall>k < wpp. buf ! k = written_cell ws page_id k None"
    proof (intro allI impI)
      fix k assume k: "k < wpp"
      then have "k < words_per_page ?new" using wpp0 by simp
      from WritePages_cell [OF assms(1) pool_wf_new q this] none0 buf
      show "buf ! k = written_cell ws page_id k None"
        by (simp add: page_cell_def)
    qed
    from buf in_range lenb cells
    show "\<exists>buf. ReadPage pool page_id = Inr (Some buf) \<and> length buf = wpp
                 \<and> (\<forall>k < wpp. buf ! k = written_cell ws page_id k None)"
      by (simp add: ReadPage_def)
  qed
qed

theorem C5_ReadPage_witness:
  "WritePages (DAGNodePool_new 4 2) [(0, 1, [7, 9])] = Inr
     \<lparr>words_per_page = 4, m_pages = [Some [None, Some 7, Some 9, None], None]\<rparr>
   \<and> ReadPage \<lparr>words_per_page = 4, m_pages = [Some [None, Some 7, Some 9, None], None]\<rparr> 1
       = Inr None
   \<and> ReadPage \<lparr>words_per_page = 4, m_pages = [Some [None, Some 7, Some 9, None], None]\<rparr> 0
       = Inr (Some [None, Some 7, Some 9, None])"
proof -
  let ?pool = "\<lparr>words_per_page = 4, m_pages = [Some [None, Some 7, Some 9, None], None]\<rparr>"
  have run: "WritePages (DAGNodePool_new 4 2) [(0, 1, [7, 9])] = Inr ?pool"
    by code_simp
  have nw1: "never_written [(0, 1, [7, 9 :: Word])] 1"
    and nw0: "\<not> never_written [(0, 1, [7, 9 :: Word])] 0"
    by (simp_all add: never_written_def)
  from C5_ReadPage [OF run, of 1] nw1 have r1: "ReadPage ?pool 1 = Inr None" by simp
  from C5_ReadPage [OF run, of 0] nw0 obtain buf where
    buf: "ReadPage ?pool 0 = Inr (Some buf)" by auto
  then have "ReadPage ?pool 0 = Inr (Some [None, Some 7, Some 9, None])"
    by (simp add: ReadPage_def)
  with run r1 show ?thesis by simp
qed

section \<open>Properties of the leaf store\<close>

lemma Append_None_iff:
  "Append v count init = None \<longleftrightarrow> capacity_exhausted v count"
  by (auto simp: Append_def allocate_pages_def capacity_exhausted_def free_pages_def Let_def)



lemma write_leaf_chunk_pages [simp]:
  "m_used_pages (write_leaf_chunk v idx chunk) = m_used_pages v"
  "m_total_pages (write_leaf_chunk v idx chunk) = m_total_pages v"
  "m_page_bits (write_leaf_chunk v idx chunk) = m_page_bits v"
  by (simp_all add: write_leaf_chunk_def)

text \<open>
  C7: \<open>Append\<close> returns \<open>None\<close> exactly when page capacity is exhausted for the request;
  and when the \<open>Append\<close> of \<open>SetLeaf\<close> fails, \<open>SetLeaf\<close> returns the pointer it was given and
  leaves the pool as it was: nothing of the new leaf is visible.
\<close>

theorem C7_Append_failure:
  "(Append v count init = None \<longleftrightarrow> capacity_exhausted v count)
   \<and> (capacity_exhausted (m_leaves pool) (leaf_append_size pool ptr chunk) \<longrightarrow>
        fst (SetLeaf pool ptr chunk) = ptr
        \<and> (\<not> reuses_slot pool ptr chunk \<longrightarrow> SetLeaf pool ptr chunk = (ptr, pool)))"
proof (intro conjI impI)
  show "Append v count init = None \<longleftrightarrow> capacity_exhausted v count"
    by (rule Append_None_iff)
next
  assume "capacity_exhausted (m_leaves pool) (leaf_append_size pool ptr chunk)"
  then have fails: "Append (m_leaves pool) (leaf_append_size pool ptr chunk) no_init = None"
    by (simp add: Append_None_iff)
  then show "fst (SetLeaf pool ptr chunk) = ptr"
    by (simp add: SetLeaf_def)
  assume "\<not> reuses_slot pool ptr chunk"
  with fails show "SetLeaf pool ptr chunk = (ptr, pool)"
    by (simp add: SetLeaf_def)
qed

theorem C7_Append_failure_witness:
  "Append (m_leaves full_pool) 6 no_init = None
   \<and> capacity_exhausted (m_leaves full_pool) 6
   \<and> leaf_append_size full_pool (Pointer kNull 0) one_block_chunk = 6
   \<and> SetLeaf full_pool (Pointer kNull 0) one_block_chunk = (Pointer kNull 0, full_pool)"
proof -
  have ex: "capacity_exhausted (m_leaves full_pool) 6"
    by (simp add: capacity_exhausted_def free_pages_def full_pool_def)
  have sz: "leaf_append_size full_pool (Pointer kNull 0) one_block_chunk = 6"
    by (simp add: leaf_append_size_def calculate_chunk_size_def chunk_words_def
        one_block_chunk_def full_pool_def)
  have nr: "\<not> reuses_slot full_pool (Pointer kNull 0) one_block_chunk"
    by (simp add: reuses_slot_def)
  from C7_Append_failure [of "m_leaves full_pool" 6 no_init full_pool "Pointer kNull 0"
      one_block_chunk] ex sz nr
  show ?thesis by simp
qed




section \<open>Properties of the node pool\<close>

lemma bucket_word_mem:
  "bucket_word cfg pool b off = mem pool (b * GetWordsPerBucket cfg + off)"
proof -
  have "(b * GetPagesPerBucket cfg + off div GetWordsPerPage cfg) * GetWordsPerPage cfg
          + off mod GetWordsPerPage cfg = b * GetWordsPerBucket cfg + off"
    by (simp add: GetWordsPerBucket_def algebra_simps)
  then show ?thesis
    by (simp add: bucket_word_def read_page_def Let_def)
qed

lemma node_words_pos [simp]: "0 < node_words cfg lvl w"
  by (simp add: node_words_def)

lemma scan_end_ge: "off \<le> scan_end cfg pool lvl b off"
proof (induction cfg pool lvl b off rule: scan_end.induct)
  case (1 cfg pool lvl b off)
  show ?case
  proof (cases "off < bucket_words pool b")
    case True
    from "1.IH" [OF True] show ?thesis
      by (subst scan_end.simps) (use True in simp)
  next
    case False
    then show ?thesis by (subst scan_end.simps) simp
  qed
qed

lemma scan_from_bounds:
  "q \<in> set (scan_from cfg pool lvl b off) \<Longrightarrow> off \<le> q \<and> q < bucket_words pool b"
proof (induction cfg pool lvl b off rule: scan_from.induct)
  case (1 cfg pool lvl b off)
  show ?case
  proof (cases "off < bucket_words pool b")
    case True
    with "1.prems" have "q = off \<or> q \<in> set (scan_from cfg pool lvl b
        (off + node_words cfg lvl (bucket_word cfg pool b off)))"
      by (subst (asm) scan_from.simps) simp
    with "1.IH" [OF True] True show ?thesis by auto
  next
    case False
    with "1.prems" show ?thesis by (subst (asm) scan_from.simps) simp
  qed
qed

lemma scan_from_Nil [simp]:
  "bucket_words pool b \<le> off \<Longrightarrow> scan_from cfg pool lvl b off = []"
  by (subst scan_from.simps) simp

lemma scan_end_stop [simp]:
  "bucket_words pool b \<le> off \<Longrightarrow> scan_end cfg pool lvl b off = off"
  by (subst scan_end.simps) simp

lemma scan_from_Cons:
  "off < bucket_words pool b \<Longrightarrow>
   scan_from cfg pool lvl b off =
     off # scan_from cfg pool lvl b (off + node_words cfg lvl (bucket_word cfg pool b off))"
  by (subst scan_from.simps) simp

lemma scan_end_step:
  "off < bucket_words pool b \<Longrightarrow>
   scan_end cfg pool lvl b off =
     scan_end cfg pool lvl b (off + node_words cfg lvl (bucket_word cfg pool b off))"
  by (subst scan_end.simps) simp

lemma scan_extend:
  assumes "\<forall>i < bucket_words pool b. bucket_word cfg pool' b i = bucket_word cfg pool b i"
    and "bucket_words pool b \<le> bucket_words pool' b"
    and "scan_end cfg pool lvl b off = bucket_words pool b"
  shows "scan_from cfg pool' lvl b off =
           scan_from cfg pool lvl b off @ scan_from cfg pool' lvl b (bucket_words pool b)
       \<and> scan_end cfg pool' lvl b off = scan_end cfg pool' lvl b (bucket_words pool b)
       \<and> (\<forall>q \<in> set (scan_from cfg pool lvl b off).
             read_node cfg pool' lvl b q = read_node cfg pool lvl b q)"
  using assms
proof (induction cfg pool lvl b off rule: scan_from.induct)
  case (1 cfg pool lvl b off)
  note agree = "1.prems"(1) and more = "1.prems"(2) and exact = "1.prems"(3)
  show ?case
  proof (cases "off < bucket_words pool b")
    case True
    let ?n = "off + node_words cfg lvl (bucket_word cfg pool b off)"
    have ex': "scan_end cfg pool lvl b ?n = bucket_words pool b"
      using exact True by (subst (asm) scan_end.simps) simp
    then have n_le: "?n \<le> bucket_words pool b"
      using scan_end_ge [of ?n cfg pool lvl b] by simp
    note IH = "1.IH" [OF True agree more ex']
    have hd: "bucket_word cfg pool' b off = bucket_word cfg pool b off"
      using agree True by simp
    have lt': "off < bucket_words pool' b" using True more by simp
    have s': "scan_from cfg pool' lvl b off = off # scan_from cfg pool' lvl b ?n"
      by (subst scan_from.simps) (simp add: lt' hd)
    have s: "scan_from cfg pool lvl b off = off # scan_from cfg pool lvl b ?n"
      by (subst scan_from.simps) (simp add: True)
    have e': "scan_end cfg pool' lvl b off = scan_end cfg pool' lvl b ?n"
      by (subst scan_end.simps) (simp add: lt' hd)
    have rd: "read_node cfg pool' lvl b off = read_node cfg pool lvl b off"
      using agree n_le by (simp add: read_node_def hd)
    from IH s s' e' rd show ?thesis by simp
  next
    case False
    with exact have "off = bucket_words pool b"
      by (subst (asm) scan_end.simps) simp
    then show ?thesis by simp
  qed
qed

lemma level_base_Suc:
  "l < GetNodeLevels cfg \<Longrightarrow> level_base cfg (Suc l) = level_base cfg l + GetBucketsAtLevel cfg l"
  by (simp add: level_base_def GetNodeLevels_def GetBucketsAtLevel_def take_Suc_conv_app_nth)

lemma level_base_mono:
  "l1 \<le> l2 \<Longrightarrow> level_base cfg l1 \<le> level_base cfg l2"
proof -
  have "level_base cfg l1 \<le> level_base cfg (l1 + d)" for d
  proof -
    have "take (l1 + d) (bucket_bits_each_level cfg)
        = take l1 (bucket_bits_each_level cfg) @ take d (drop l1 (bucket_bits_each_level cfg))"
      by (simp add: take_add)
    then show ?thesis by (simp add: level_base_def)
  qed
  from this [of "l2 - l1"] show "l1 \<le> l2 \<Longrightarrow> ?thesis" by simp
qed

lemma level_bucket_less:
  assumes "l1 < l2" and "l2 \<le> GetNodeLevels cfg" and "k < GetBucketsAtLevel cfg l1"
  shows "level_base cfg l1 + k < level_base cfg l2"
proof -
  from assms have "l1 < GetNodeLevels cfg" by simp
  from level_base_Suc [OF this] assms(3)
  have "level_base cfg l1 + k < level_base cfg (Suc l1)" by simp
  also have "\<dots> \<le> level_base cfg l2" using assms(1) by (intro level_base_mono) simp
  finally show ?thesis .
qed

lemma level_bucket_inj:
  assumes "l1 < GetNodeLevels cfg" and "l2 < GetNodeLevels cfg"
    and "k1 < GetBucketsAtLevel cfg l1" and "k2 < GetBucketsAtLevel cfg l2"
    and "level_base cfg l1 + k1 = level_base cfg l2 + k2"
  shows "l1 = l2"
proof (rule ccontr)
  assume "l1 \<noteq> l2"
  then consider "l1 < l2" | "l2 < l1" by linarith
  then show False
  proof cases
    case 1
    from level_bucket_less [OF 1 _ assms(3)] assms(2,5) show False by simp
  next
    case 2
    from level_bucket_less [OF 2 _ assms(4)] assms(1,5) show False by simp
  qed
qed

lemma calculate_bucket_range:
  "\<exists>k < GetBucketsAtLevel cfg lvl. calculate_bucket cfg lvl node = level_base cfg lvl + k"
  by (auto simp: calculate_bucket_def GetBucketsAtLevel_def)

lemma bucket_in_total:
  assumes "lvl < GetNodeLevels cfg" and "k < GetBucketsAtLevel cfg lvl"
  shows "level_base cfg lvl + k < GetTotalBuckets cfg"
  unfolding GetTotalBuckets_def using assms by (intro level_bucket_less) simp_all

lemma address_bound:
  assumes "config_ok cfg" and "lvl < GetNodeLevels cfg" and "k < GetBucketsAtLevel cfg lvl"
    and "q < GetWordsPerBucket cfg"
  shows "(level_base cfg lvl + k) * GetWordsPerBucket cfg + q < 2 ^ 32 - 2"
proof -
  let ?b = "level_base cfg lvl + k" and ?W = "GetWordsPerBucket cfg"
  from bucket_in_total [OF assms(2,3)] have "Suc ?b \<le> GetTotalBuckets cfg" by simp
  then have "Suc ?b * ?W \<le> GetTotalBuckets cfg * ?W" by (rule mult_le_mono1)
  moreover have "?b * ?W + q < Suc ?b * ?W" using assms(4) by simp
  ultimately show ?thesis using assms(1) by (simp add: config_ok_def GetTotalWords_def)
qed

lemma node_address_unat:
  assumes "b * GetWordsPerBucket cfg + q < 2 ^ 32 - 2"
  shows "unat (node_address cfg b q) = b * GetWordsPerBucket cfg + q"
proof -
  from assms have "b * GetWordsPerBucket cfg + q < 2 ^ 32" by simp
  then show ?thesis
    unfolding node_address_def by (intro of_nat_inverse [OF refl]) simp
qed

lemma node_address_not_sentinel:
  assumes "b * GetWordsPerBucket cfg + q < 2 ^ 32 - 2"
  shows "node_address cfg b q \<noteq> Null" and "node_address cfg b q \<noteq> Filled"
proof -
  have un: "unat Null = 2 ^ 32 - 1" and uf: "unat Filled = 2 ^ 32 - 2"
    by (simp_all add: Null_def Filled_def)
  from node_address_unat [OF assms] assms un uf
  show "node_address cfg b q \<noteq> Null" and "node_address cfg b q \<noteq> Filled"
    by auto
qed

lemma pool_ext_refl [simp]: "pool_ext cfg pool pool"
  by (simp add: pool_ext_def)

lemma pool_ext_trans:
  "pool_ext cfg p1 p2 \<Longrightarrow> pool_ext cfg p2 p3 \<Longrightarrow> pool_ext cfg p1 p3"
  unfolding pool_ext_def by (metis le_trans less_le_trans)

lemma bucket_addr_disjoint:
  fixes W :: nat
  assumes "b \<noteq> b0" and "i < W" and "u \<le> W"
  shows "b * W + i < b0 * W \<or> b0 * W + u \<le> b * W + i"
proof (cases "b < b0")
  case True
  then have "Suc b * W \<le> b0 * W" by (intro mult_le_mono1) simp
  with assms(2) show ?thesis by simp
next
  case False
  with assms(1) have "Suc b0 * W \<le> b * W" by (intro mult_le_mono1) simp
  with assms(3) show ?thesis by simp
qed

lemma append_node_Inr:
  assumes "append_node cfg pool b0 node = Inr (p, pool')"
  shows "bucket_words pool b0 + length node \<le> GetWordsPerBucket cfg"
    and "p = node_address cfg b0 (bucket_words pool b0)"
    and "bucket_words pool' = (bucket_words pool)(b0 := bucket_words pool b0 + length node)"
    and "mem pool' = write_words (mem pool) (b0 * GetWordsPerBucket cfg + bucket_words pool b0) node"
  using assms by (auto simp: append_node_def Let_def split: if_splits)

lemma append_node_ext:
  assumes ap: "append_node cfg pool b0 node = Inr (p, pool')"
    and cap: "\<forall>b. bucket_words pool b \<le> GetWordsPerBucket cfg"
  shows "pool_ext cfg pool pool'"
  unfolding pool_ext_def
proof (intro allI conjI impI)
  note A = append_node_Inr [OF ap]
  fix b
  show "bucket_words pool b \<le> bucket_words pool' b"
    by (simp add: A(3))
  fix i assume i: "i < bucket_words pool b"
  let ?W = "GetWordsPerBucket cfg" and ?u = "bucket_words pool b0"
  have "b * ?W + i < b0 * ?W + ?u \<or> b0 * ?W + ?u + length node \<le> b * ?W + i"
  proof (cases "b = b0")
    case True
    with i show ?thesis by simp
  next
    case False
    from i cap have "i < ?W" by (meson less_le_trans)
    from bucket_addr_disjoint [OF False this A(1)] show ?thesis by auto
  qed
  then show "bucket_word cfg pool' b i = bucket_word cfg pool b i"
    by (auto simp: bucket_word_mem A(4) write_words_def)
qed

lemma append_node_new:
  assumes ap: "append_node cfg pool b0 node = Inr (p, pool')" and j: "j < length node"
  shows "bucket_word cfg pool' b0 (bucket_words pool b0 + j) = node ! j"
  using j by (simp add: bucket_word_mem append_node_Inr(4) [OF ap] write_words_def)

lemma append_node_read:
  assumes ap: "append_node cfg pool b0 node = Inr (p, pool')"
    and wf: "node_wf cfg lvl node"
  shows "read_node cfg pool' lvl b0 (bucket_words pool b0) = node"
    and "node_words cfg lvl (bucket_word cfg pool' b0 (bucket_words pool b0)) = length node"
proof -
  from wf have ne: "0 < length node" and len: "length node = node_words cfg lvl (hd node)"
    by (simp_all add: node_wf_def)
  from append_node_new [OF ap ne] have hd: "bucket_word cfg pool' b0 (bucket_words pool b0) = hd node"
    using ne by (simp add: hd_conv_nth)
  show sz: "node_words cfg lvl (bucket_word cfg pool' b0 (bucket_words pool b0)) = length node"
    by (simp add: hd len)
  show "read_node cfg pool' lvl b0 (bucket_words pool b0) = node"
    unfolding read_node_def sz
    by (rule nth_equalityI) (simp_all add: append_node_new [OF ap])
qed

lemma scan_other_bucket:
  assumes ext: "pool_ext cfg pool pool'" and same: "bucket_words pool' b = bucket_words pool b"
    and ok: "bucket_ok cfg pool lvl b"
  shows "stored_offsets cfg pool' lvl b = stored_offsets cfg pool lvl b"
    and "bucket_ok cfg pool' lvl b"
    and "\<forall>q \<in> set (stored_offsets cfg pool lvl b).
           read_node cfg pool' lvl b q = read_node cfg pool lvl b q"
proof -
  from ext have agree: "\<forall>i < bucket_words pool b. bucket_word cfg pool' b i = bucket_word cfg pool b i"
    and more: "bucket_words pool b \<le> bucket_words pool' b"
    by (simp_all add: pool_ext_def)
  from ok have exact: "scan_end cfg pool lvl b 0 = bucket_words pool b"
    by (simp add: bucket_ok_def)
  note E = scan_extend [OF agree more exact]
  from E same show "stored_offsets cfg pool' lvl b = stored_offsets cfg pool lvl b"
    by (simp add: stored_offsets_def)
  from E same ok show "bucket_ok cfg pool' lvl b"
    by (simp add: bucket_ok_def)
  from E show "\<forall>q \<in> set (stored_offsets cfg pool lvl b).
           read_node cfg pool' lvl b q = read_node cfg pool lvl b q"
    by (simp add: stored_offsets_def)
qed

lemma scan_appended_bucket:
  assumes ap: "append_node cfg pool b0 node = Inr (p, pool')"
    and cap: "\<forall>b. bucket_words pool b \<le> GetWordsPerBucket cfg"
    and wf: "node_wf cfg lvl node"
    and ok: "bucket_ok cfg pool lvl b0"
  shows "stored_offsets cfg pool' lvl b0 = stored_offsets cfg pool lvl b0 @ [bucket_words pool b0]"
    and "bucket_ok cfg pool' lvl b0"
    and "\<forall>q \<in> set (stored_offsets cfg pool lvl b0).
           read_node cfg pool' lvl b0 q = read_node cfg pool lvl b0 q"
proof -
  note A = append_node_Inr [OF ap] and R = append_node_read [OF ap wf]
  from append_node_ext [OF ap cap]
  have agree: "\<forall>i < bucket_words pool b0. bucket_word cfg pool' b0 i = bucket_word cfg pool b0 i"
    and more: "bucket_words pool b0 \<le> bucket_words pool' b0"
    by (simp_all add: pool_ext_def)
  from ok have exact: "scan_end cfg pool lvl b0 0 = bucket_words pool b0"
    by (simp add: bucket_ok_def)
  note E = scan_extend [OF agree more exact]
  from wf have ne: "0 < length node" by (simp add: node_wf_def)
  have used': "bucket_words pool' b0 = bucket_words pool b0 + length node"
    by (simp add: A(3))
  have lt: "bucket_words pool b0 < bucket_words pool' b0" using ne used' by simp
  have tail: "scan_from cfg pool' lvl b0 (bucket_words pool b0) = [bucket_words pool b0]"
    by (subst scan_from_Cons [OF lt]) (simp add: R(2) used')
  have tail_end: "scan_end cfg pool' lvl b0 (bucket_words pool b0) = bucket_words pool' b0"
    by (subst scan_end_step [OF lt]) (simp add: R(2) used')
  from E tail show "stored_offsets cfg pool' lvl b0
      = stored_offsets cfg pool lvl b0 @ [bucket_words pool b0]"
    by (simp add: stored_offsets_def)
  from E tail_end A(1) used' show "bucket_ok cfg pool' lvl b0"
    by (simp add: bucket_ok_def)
  from E show "\<forall>q \<in> set (stored_offsets cfg pool lvl b0).
           read_node cfg pool' lvl b0 q = read_node cfg pool lvl b0 q"
    by (simp add: stored_offsets_def)
qed

lemma pool_inv_empty: "pool_inv cfg NodePool_empty"
  by (simp add: pool_inv_def NodePool_empty_def bucket_ok_def)

lemma stored_offsets_bound:
  "q \<in> set (stored_offsets cfg pool lvl b) \<Longrightarrow> q < bucket_words pool b"
  unfolding stored_offsets_def using scan_from_bounds by blast

lemma stored_address_ok:
  assumes "config_ok cfg" and "pool_inv cfg pool"
    and "lvl < GetNodeLevels cfg" and "k < GetBucketsAtLevel cfg lvl"
    and "q \<in> set (stored_offsets cfg pool lvl (level_base cfg lvl + k))"
  shows "(level_base cfg lvl + k) * GetWordsPerBucket cfg + q < 2 ^ 32 - 2"
proof -
  from stored_offsets_bound [OF assms(5)] assms(2)
  have "q < GetWordsPerBucket cfg"
    unfolding pool_inv_def by (meson less_le_trans)
  with assms show ?thesis by (intro address_bound)
qed

lemma stored_ext:
  assumes inv: "pool_inv cfg pool" and ext: "pool_ext cfg pool pool'"
    and lv: "lvl < GetNodeLevels cfg" and st: "stored cfg pool lvl p node"
  shows "stored cfg pool' lvl p node"
proof -
  from st obtain k q where k: "k < GetBucketsAtLevel cfg lvl"
    and q: "q \<in> set (stored_offsets cfg pool lvl (level_base cfg lvl + k))"
    and p: "p = node_address cfg (level_base cfg lvl + k) q"
    and r: "read_node cfg pool lvl (level_base cfg lvl + k) q = node"
    by (auto simp: stored_def)
  let ?b = "level_base cfg lvl + k"
  from ext have agree: "\<forall>i < bucket_words pool ?b. bucket_word cfg pool' ?b i = bucket_word cfg pool ?b i"
    and more: "bucket_words pool ?b \<le> bucket_words pool' ?b"
    by (simp_all add: pool_ext_def)
  from inv lv k have exact: "scan_end cfg pool lvl ?b 0 = bucket_words pool ?b"
    by (simp add: pool_inv_def bucket_ok_def)
  note E = scan_extend [OF agree more exact]
  from E q have "q \<in> set (stored_offsets cfg pool' lvl ?b)"
    and "read_node cfg pool' lvl ?b q = read_node cfg pool lvl ?b q"
    by (simp_all add: stored_offsets_def)
  with k p r show ?thesis by (auto simp: stored_def)
qed

subsection \<open>What a lookup returns\<close>

lemma find_node_in_page_sound:
  "find_node_in_page cfg lvl page_id page_words page_data node off \<noteq> Null \<Longrightarrow>
   \<exists>q. q + length node \<le> page_words
      \<and> find_node_in_page cfg lvl page_id page_words page_data node off
          = of_nat (page_id * GetWordsPerPage cfg + q)
      \<and> length node = node_words cfg lvl (page_data q)
      \<and> map page_data [q ..< q + length node] = node"
proof (induction cfg lvl page_id page_words page_data node off rule: find_node_in_page.induct)
  case (1 cfg lvl page_id page_words page_data node off)
  let ?n = "node_words cfg lvl (page_data off)"
  show ?case
  proof (cases "off < page_words")
    case True
    show ?thesis
    proof (cases "off + ?n \<le> page_words \<and> map page_data [off ..< off + ?n] = node")
      case hit: True
      then have len: "length node = ?n" by auto
      from True hit have "find_node_in_page cfg lvl page_id page_words page_data node off
          = of_nat (page_id * GetWordsPerPage cfg + off)"
        by (subst find_node_in_page.simps) simp
      with hit len show ?thesis by (intro exI [of _ off]) simp
    next
      case miss: False
      from True miss have eq: "find_node_in_page cfg lvl page_id page_words page_data node off
          = find_node_in_page cfg lvl page_id page_words page_data node (off + ?n)"
        by (subst find_node_in_page.simps) auto
      from "1.IH" [OF True miss] "1.prems" show ?thesis unfolding eq by simp
    qed
  next
    case False
    with "1.prems" show ?thesis by (subst (asm) find_node_in_page.simps) simp
  qed
qed

lemma page_of_bucket:
  assumes "GetWordsPerPage cfg dvd page_offset"
  shows "(b * GetPagesPerBucket cfg + page_offset div GetWordsPerPage cfg) * GetWordsPerPage cfg
           = b * GetWordsPerBucket cfg + page_offset"
  using assms by (simp add: GetWordsPerBucket_def algebra_simps)

lemma find_node_loop_sound:
  "GetWordsPerPage cfg dvd page_offset \<Longrightarrow>
   find_node_loop cfg pool lvl b node page_offset \<noteq> Null \<Longrightarrow>
   \<exists>q. q + length node \<le> bucket_words pool b
      \<and> find_node_loop cfg pool lvl b node page_offset = node_address cfg b q
      \<and> read_node cfg pool lvl b q = node"
proof (induction cfg pool lvl b node page_offset rule: find_node_loop.induct)
  case (1 cfg pool lvl b node page_offset)
  let ?W = "GetWordsPerPage cfg"
  let ?page_id = "b * GetPagesPerBucket cfg + page_offset div ?W"
  let ?used = "min ?W (bucket_words pool b - page_offset)"
  let ?r = "find_node_in_page cfg lvl ?page_id ?used (read_page cfg pool ?page_id) node 0"
  show ?case
  proof (cases "page_offset < bucket_words pool b")
    case True
    show ?thesis
    proof (cases "?r = Null")
      case found: False
      from True found have eq: "find_node_loop cfg pool lvl b node page_offset = ?r"
        by (subst find_node_loop.simps) (simp add: Let_def)
      from find_node_in_page_sound [OF found] obtain q
        where q: "q + length node \<le> ?used"
          and r: "?r = of_nat (?page_id * ?W + q)"
          and len: "length node = node_words cfg lvl (read_page cfg pool ?page_id q)"
          and ws: "map (read_page cfg pool ?page_id) [q ..< q + length node] = node"
        by blast
      note pg = page_of_bucket [OF "1.prems"(1), of b]
      have word: "read_page cfg pool ?page_id i = bucket_word cfg pool b (page_offset + i)" for i
        by (simp add: read_page_def bucket_word_mem pg add.assoc)
      from q True have fits: "page_offset + q + length node \<le> bucket_words pool b" by arith
      have addr: "?r = node_address cfg b (page_offset + q)"
        by (simp add: r node_address_def pg add.assoc)
      have "read_node cfg pool lvl b (page_offset + q)
          = map (bucket_word cfg pool b) [page_offset + q ..< page_offset + q + length node]"
        using len by (simp add: read_node_def word)
      also have "\<dots> = map (read_page cfg pool ?page_id) [q ..< q + length node]"
        by (rule nth_equalityI) (simp_all add: word add.assoc)
      also note ws
      finally have "read_node cfg pool lvl b (page_offset + q) = node" .
      with fits addr show ?thesis unfolding eq by (intro exI [of _ "page_offset + q"]) simp
    next
      case miss: True
      from True miss have eq: "find_node_loop cfg pool lvl b node page_offset
          = find_node_loop cfg pool lvl b node (page_offset + ?W)"
        by (subst find_node_loop.simps) (simp add: Let_def)
      from "1.prems"(1) have dvd: "?W dvd page_offset + ?W" by simp
      from "1.IH" [OF True refl refl refl refl _ dvd] miss "1.prems"(2) show ?thesis
        unfolding eq by simp
    qed
  next
    case False
    with "1.prems"(2) show ?thesis by (subst (asm) find_node_loop.simps) simp
  qed
qed

lemma find_node_sound:
  assumes "find_node cfg pool lvl b node \<noteq> Null"
  shows "\<exists>q. q + length node \<le> bucket_words pool b
      \<and> find_node cfg pool lvl b node = node_address cfg b q
      \<and> read_node cfg pool lvl b q = node"
  using find_node_loop_sound [of cfg 0 pool lvl b node] assms by (simp add: find_node_def)

subsection \<open>The words at an address\<close>

lemma read_node_length: "length (read_node cfg pool lvl b q) = node_words cfg lvl (bucket_word cfg pool b q)"
  by (simp add: read_node_def)

lemma read_node_agree:
  assumes "\<forall>i < u. bucket_word cfg pool' b i = bucket_word cfg pool b i"
    and "q + length (read_node cfg pool lvl b q) \<le> u"
  shows "read_node cfg pool' lvl b q = read_node cfg pool lvl b q"
proof -
  from assms(2) node_words_pos [of cfg lvl "bucket_word cfg pool b q"] have "q < u"
    unfolding read_node_length by linarith
  with assms(1) have hd: "bucket_word cfg pool' b q = bucket_word cfg pool b q" by simp
  from assms show ?thesis by (simp add: read_node_def hd)
qed

lemma held_ext:
  assumes ext: "pool_ext cfg pool pool'" and h: "held cfg pool lvl p node"
  shows "held cfg pool' lvl p node"
proof -
  from h obtain k q where k: "k < GetBucketsAtLevel cfg lvl"
    and q: "q + length node \<le> bucket_words pool (level_base cfg lvl + k)"
    and p: "p = node_address cfg (level_base cfg lvl + k) q"
    and r: "read_node cfg pool lvl (level_base cfg lvl + k) q = node"
    by (auto simp: held_def)
  let ?b = "level_base cfg lvl + k"
  from ext have agree: "\<forall>i < bucket_words pool ?b. bucket_word cfg pool' ?b i = bucket_word cfg pool ?b i"
    and more: "bucket_words pool ?b \<le> bucket_words pool' ?b"
    by (simp_all add: pool_ext_def)
  from q r have "q + length (read_node cfg pool lvl ?b q) \<le> bucket_words pool ?b" by simp
  from read_node_agree [OF agree this] r have "read_node cfg pool' lvl ?b q = node" by simp
  with k q more p show ?thesis unfolding held_def by (intro exI [of _ k] conjI exI [of _ q]) simp_all
qed

lemma held_mem:
  assumes cfg: "config_ok cfg" and inv: "pool_inv cfg pool" and lv: "lvl < GetNodeLevels cfg"
    and h: "held cfg pool lvl p node"
  shows "p \<noteq> Null" and "p \<noteq> Filled"
    and "length node = node_words cfg lvl (mem pool (unat p))"
    and "\<forall>j < length node. mem pool (unat p + j) = node ! j"
proof -
  from h obtain k q where k: "k < GetBucketsAtLevel cfg lvl"
    and q: "q + length node \<le> bucket_words pool (level_base cfg lvl + k)"
    and p: "p = node_address cfg (level_base cfg lvl + k) q"
    and r: "read_node cfg pool lvl (level_base cfg lvl + k) q = node"
    by (auto simp: held_def)
  let ?b = "level_base cfg lvl + k"
  from r have "length node = node_words cfg lvl (bucket_word cfg pool ?b q)"
    using read_node_length by metis
  then have "0 < length node" by simp
  with q have "q < bucket_words pool ?b" by linarith
  moreover from inv have "bucket_words pool ?b \<le> GetWordsPerBucket cfg" by (simp add: pool_inv_def)
  ultimately have "q < GetWordsPerBucket cfg" by simp
  note bound = address_bound [OF cfg lv k this]
  from node_address_not_sentinel [OF bound] p show "p \<noteq> Null" and "p \<noteq> Filled" by simp_all
  from node_address_unat [OF bound] p have up: "unat p = ?b * GetWordsPerBucket cfg + q" by simp
  from r show len: "length node = node_words cfg lvl (mem pool (unat p))"
    by (auto simp: read_node_def bucket_word_mem up)
  show "\<forall>j < length node. mem pool (unat p + j) = node ! j"
  proof (intro allI impI)
    fix j assume "j < length node"
    with r [symmetric] show "mem pool (unat p + j) = node ! j"
      by (simp add: read_node_def bucket_word_mem up add.assoc)
  qed
qed

lemma scan_node_fits:
  "scan_end cfg pool lvl b off = bucket_words pool b \<Longrightarrow>
   q \<in> set (scan_from cfg pool lvl b off) \<Longrightarrow>
   q + node_words cfg lvl (bucket_word cfg pool b q) \<le> bucket_words pool b"
proof (induction cfg pool lvl b off rule: scan_from.induct)
  case (1 cfg pool lvl b off)
  let ?n = "off + node_words cfg lvl (bucket_word cfg pool b off)"
  show ?case
  proof (cases "off < bucket_words pool b")
    case True
    from "1.prems"(1) True have ex': "scan_end cfg pool lvl b ?n = bucket_words pool b"
      by (simp add: scan_end_step)
    then have n_le: "?n \<le> bucket_words pool b"
      using scan_end_ge [of ?n cfg pool lvl b] by simp
    from "1.prems"(2) True have "q = off \<or> q \<in> set (scan_from cfg pool lvl b ?n)"
      by (simp add: scan_from_Cons)
    with "1.IH" [OF True ex'] n_le show ?thesis by auto
  next
    case False
    with "1.prems"(2) show ?thesis by simp
  qed
qed

lemma stored_held:
  assumes inv: "pool_inv cfg pool" and lv: "lvl < GetNodeLevels cfg"
    and st: "stored cfg pool lvl p node"
  shows "held cfg pool lvl p node"
proof -
  from st obtain k q where k: "k < GetBucketsAtLevel cfg lvl"
    and q: "q \<in> set (stored_offsets cfg pool lvl (level_base cfg lvl + k))"
    and p: "p = node_address cfg (level_base cfg lvl + k) q"
    and r: "read_node cfg pool lvl (level_base cfg lvl + k) q = node"
    by (auto simp: stored_def)
  let ?b = "level_base cfg lvl + k"
  from inv lv k have "scan_end cfg pool lvl ?b 0 = bucket_words pool ?b"
    by (simp add: pool_inv_def bucket_ok_def)
  from scan_node_fits [OF this] q
  have "q + node_words cfg lvl (bucket_word cfg pool ?b q) \<le> bucket_words pool ?b"
    by (simp add: stored_offsets_def)
  with r have "q + length node \<le> bucket_words pool ?b" by (auto simp: read_node_def)
  with k p r show ?thesis unfolding held_def by blast
qed

text \<open>
  An upsert of a well-formed node keeps the invariant, only adds words, and returns an
  address that holds the words of the node.
\<close>

lemma upsert_node_cases:
  assumes up: "upsert_node cfg pool lvl node = Inr (p, pool')"
  shows "(pool' = pool \<and> p = find_node cfg pool lvl (calculate_bucket cfg lvl node) node
            \<and> p \<noteq> Null)
       \<or> (find_node cfg pool lvl (calculate_bucket cfg lvl node) node = Null
            \<and> append_node cfg pool (calculate_bucket cfg lvl node) node = Inr (p, pool'))"
  using up by (auto simp: upsert_node_def Let_def split: if_splits)

lemma upsert_node_sound:
  assumes cfg: "config_ok cfg" and inv: "pool_inv cfg pool" and wf: "node_wf cfg lvl node"
    and up: "upsert_node cfg pool lvl node = Inr (p, pool')"
  shows "pool_inv cfg pool'" and "pool_ext cfg pool pool'" and "held cfg pool' lvl p node"
proof -
  from wf have lv: "lvl < GetNodeLevels cfg" by (simp add: node_wf_def)
  from calculate_bucket_range obtain k where k: "k < GetBucketsAtLevel cfg lvl"
    and b: "calculate_bucket cfg lvl node = level_base cfg lvl + k" by blast
  let ?b = "level_base cfg lvl + k"
  from upsert_node_cases [OF up] b
  consider "pool' = pool" "p = find_node cfg pool lvl ?b node" "p \<noteq> Null"
    | "append_node cfg pool ?b node = Inr (p, pool')"
    by auto
  then have "pool_inv cfg pool' \<and> pool_ext cfg pool pool' \<and> held cfg pool' lvl p node"
  proof cases
    case 1
    from 1(2,3) have "find_node cfg pool lvl ?b node \<noteq> Null" by simp
    from find_node_sound [OF this] 1(2) obtain q
      where "q + length node \<le> bucket_words pool ?b" "p = node_address cfg ?b q"
        "read_node cfg pool lvl ?b q = node"
      by auto
    with k have "held cfg pool lvl p node" unfolding held_def by blast
    with 1(1) inv show ?thesis by simp
  next
    case 2
    note ap = 2
    note A = append_node_Inr [OF ap]
    from inv have cap: "\<forall>b. bucket_words pool b \<le> GetWordsPerBucket cfg"
      by (simp add: pool_inv_def)
    have ext: "pool_ext cfg pool pool'" using ap cap by (rule append_node_ext)
    from inv lv k have ok0: "bucket_ok cfg pool lvl ?b" by (simp add: pool_inv_def)
    note S = scan_appended_bucket [OF ap cap wf ok0]
    note R = append_node_read [OF ap wf]
    have cap': "\<forall>b. bucket_words pool' b \<le> GetWordsPerBucket cfg"
      using cap A(1) by (simp add: A(3))
    have each: "bucket_ok cfg pool' l (level_base cfg l + j)"
      if l: "l < GetNodeLevels cfg" and j: "j < GetBucketsAtLevel cfg l" for l j
    proof (cases "level_base cfg l + j = ?b")
      case same: True
      from level_bucket_inj [OF l lv j k same] have ll: "l = lvl" .
      from S(2) same ll show ?thesis by simp
    next
      case other: False
      let ?c = "level_base cfg l + j"
      from inv l j have ok: "bucket_ok cfg pool l ?c" by (simp add: pool_inv_def)
      have same_used: "bucket_words pool' ?c = bucket_words pool ?c"
        using other by (simp add: A(3))
      from scan_other_bucket(2) [OF ext same_used ok] show ?thesis .
    qed
    have inv': "pool_inv cfg pool'"
      unfolding pool_inv_def using cap' each by blast
    have "bucket_words pool ?b + length node \<le> bucket_words pool' ?b" by (simp add: A(3))
    with k R(1) A(2) have "held cfg pool' lvl p node"
      unfolding held_def by blast
    with inv' ext show ?thesis by simp
  qed
  then show "pool_inv cfg pool'" and "pool_ext cfg pool pool'" and "held cfg pool' lvl p node"
    by simp_all
qed


section \<open>Properties of the editors and of the edit engine\<close>

lemma SphereEditor_EditNode_cases:
  "SphereEditor_EditNode Mode e config coord ptr = (if Mode = kDigMode then kClear else kFill)
   \<or> SphereEditor_EditNode Mode e config coord ptr = kNotAffected
   \<or> SphereEditor_EditNode Mode e config coord ptr = kProceed"
  by (simp add: SphereEditor_EditNode_def Let_def)

lemma SphereEditor_EditNode_ptr:
  "SphereEditor_EditNode Mode e config coord ptr = SphereEditor_EditNode Mode e config coord ptr'"
  by (simp add: SphereEditor_EditNode_def)

lemma SphereEditor_EditNode_color_paint:
  "fst (SphereEditor_EditNode_color kPaintMode e config coord ptr c) =
     (if \<not> is_set ptr \<or> SphereEditor_EditNode kPaintMode e config coord ptr = kFill
      then kNotAffected else SphereEditor_EditNode kPaintMode e config coord ptr)"
  using SphereEditor_EditNode_ptr [of kPaintMode e config coord Null ptr]
  by (simp add: SphereEditor_EditNode_color_def Let_def split: prod.splits if_splits)

lemma edit_leaf_voxel_keep:
  assumes "keeps_geometry editor"
  shows "fold (edit_leaf_voxel cfg editor coord) xs st = st"
  using assms
  by (induction xs arbitrary: st) (auto simp: edit_leaf_voxel_def keeps_geometry_def split: prod.splits)

lemma edit_leaf_keep:
  assumes "keeps_geometry editor"
  shows "edit_leaf cfg editor pool leaf coord = Inr (leaf, pool)"
  by (simp add: edit_leaf_def edit_leaf_voxel_keep [OF assms])

lemma edit_keep:
  shows "keeps_geometry editor \<Longrightarrow> edit_node cfg editor pool node coord = Inr (node, pool)"
    and "keeps_geometry editor \<Longrightarrow> edit_inner_node cfg editor pool node coord = Inr (node, pool)"
    and "keeps_geometry editor \<Longrightarrow>
         edit_children cfg editor pool coord children changed i = Inr (children, changed, pool)"
    and "keeps_geometry editor \<Longrightarrow> edit_child cfg editor pool child coord = Inr (child, False, pool)"
proof (induction cfg editor pool node coord and cfg editor pool node coord
    and cfg editor pool coord children changed i and cfg editor pool child coord
    rule: edit_node_edit_inner_node_edit_children_edit_child.induct)
  case (1 cfg editor pool node coord)
  then show ?case
    by (subst edit_node.simps) (simp add: edit_leaf_keep)
next
  case (2 cfg editor pool node coord)
  then show ?case
    by (subst edit_inner_node.simps) simp
next
  case (3 cfg editor pool coord children changed i)
  show ?case
  proof (cases "i < 8")
    case True
    note c = "3.IH"(1) [OF True "3.prems"]
    from "3.IH"(2) [OF True c refl refl "3.prems"] c True show ?thesis
      by (subst edit_children.simps) simp
  next
    case False
    then show ?thesis by (subst edit_children.simps) simp
  qed
next
  case (4 cfg editor pool child child_coord)
  from "4.prems" have "EditNode editor cfg child_coord child = kNotAffected
      \<or> EditNode editor cfg child_coord child = kProceed"
    by (simp add: keeps_geometry_def)
  then show ?case
  proof
    assume "EditNode editor cfg child_coord child = kNotAffected"
    then show ?thesis by (subst edit_child.simps) simp
  next
    assume p: "EditNode editor cfg child_coord child = kProceed"
    from "4.IH" [OF p "4.prems"] p show ?thesis by (subst edit_child.simps) simp
  qed
qed

lemma paint_keeps_geometry:
  "keeps_geometry (VBREditorWrapper_Sphere kPaintMode e node_color voxel_color)"
  using SphereEditor_EditNode_cases [of kPaintMode e]
  by (auto simp: keeps_geometry_def VBREditorWrapper_Sphere_def SphereEditor_EditNode_color_paint
      SphereEditor_EditVoxel_color_def Let_def)

text \<open>
  C9: a \<open>SphereEditor\<close> in paint mode never changes geometry.  Both overloads of \<open>EditVoxel\<close>
  return the occupancy bit they are given; the colour-threading \<open>EditNode\<close> never returns
  \<open>kClear\<close> or \<open>kFill\<close>, returns \<open>kNotAffected\<close> where the plain \<open>EditNode\<close> decides
  \<open>kFill\<close> and on a \<open>Null\<close> subtree; and an edit with the paint editor returns the root it
  was given over an unchanged pool, so every voxel reads as before.
\<close>

theorem C9_paint_preserves_occupancy:
  "SphereEditor_EditVoxel kPaintMode e config coord voxel = voxel
   \<and> fst (SphereEditor_EditVoxel_color kPaintMode e config coord voxel c) = voxel
   \<and> fst (SphereEditor_EditNode_color kPaintMode e config coord ptr c) \<noteq> kClear
   \<and> fst (SphereEditor_EditNode_color kPaintMode e config coord ptr c) \<noteq> kFill
   \<and> (SphereEditor_EditNode kPaintMode e config coord ptr = kFill \<longrightarrow>
        fst (SphereEditor_EditNode_color kPaintMode e config coord ptr c) = kNotAffected)
   \<and> (ptr = Null \<longrightarrow>
        fst (SphereEditor_EditNode_color kPaintMode e config coord ptr c) = kNotAffected)
   \<and> edit_node config (VBREditorWrapper_Sphere kPaintMode e node_color voxel_color) pool root coord
       = Inr (root, pool)
   \<and> (case edit_node config (VBREditorWrapper_Sphere kPaintMode e node_color voxel_color)
              pool root coord of
        Inl err \<Rightarrow> False
      | Inr (root', pool') \<Rightarrow>
          (\<forall>path v. get_voxel config pool' root' path v = get_voxel config pool root path v))"
proof -
  have keep: "edit_node config (VBREditorWrapper_Sphere kPaintMode e node_color voxel_color)
      pool root coord = Inr (root, pool)"
    using paint_keeps_geometry by (rule edit_keep(1))
  have dec: "fst (SphereEditor_EditNode_color kPaintMode e config coord ptr c) \<noteq> kClear"
    "fst (SphereEditor_EditNode_color kPaintMode e config coord ptr c) \<noteq> kFill"
    using SphereEditor_EditNode_cases [of kPaintMode e config coord ptr]
    by (auto simp: SphereEditor_EditNode_color_paint)
  show ?thesis
    using dec by (simp add: keep SphereEditor_EditVoxel_def SphereEditor_EditVoxel_color_def
        SphereEditor_EditNode_color_paint is_set_def)
qed

theorem C9_paint_preserves_occupancy_witness:
  "SphereEditor_EditNode kPaintMode small_sphere small_config last_leaf_coord Filled = kFill
   \<and> fst (SphereEditor_EditNode_color kPaintMode small_sphere small_config last_leaf_coord Filled
        VBRColor_default) = kNotAffected
   \<and> fst (SphereEditor_EditNode_color kPaintMode small_sphere small_config root_coord Null
        VBRColor_default) = kNotAffected
   \<and> edit_node small_config
        (VBREditorWrapper_Sphere kPaintMode small_sphere (\<lambda>c p. VBRColor_default) (\<lambda>c v. VBRColor_default))
        NodePool_empty Filled root_coord = Inr (Filled, NodePool_empty)"
proof -
  have fill: "SphereEditor_EditNode kPaintMode small_sphere small_config last_leaf_coord Filled = kFill"
    by code_simp
  note A = C9_paint_preserves_occupancy [of small_sphere small_config last_leaf_coord True
      VBRColor_default Filled "\<lambda>c p. VBRColor_default" "\<lambda>c v. VBRColor_default" NodePool_empty
      Filled]
  note B = C9_paint_preserves_occupancy [of small_sphere small_config root_coord True
      VBRColor_default Null "\<lambda>c p. VBRColor_default" "\<lambda>c v. VBRColor_default" NodePool_empty
      Filled]
  from A fill have a: "fst (SphereEditor_EditNode_color kPaintMode small_sphere small_config
      last_leaf_coord Filled VBRColor_default) = kNotAffected" by blast
  from B have b: "fst (SphereEditor_EditNode_color kPaintMode small_sphere small_config root_coord
      Null VBRColor_default) = kNotAffected" by blast
  from B have c: "edit_node small_config
        (VBREditorWrapper_Sphere kPaintMode small_sphere (\<lambda>c p. VBRColor_default) (\<lambda>c v. VBRColor_default))
        NodePool_empty Filled root_coord = Inr (Filled, NodePool_empty)" by blast
  from fill a b c show ?thesis by blast
qed

section \<open>The edit engine is correct\<close>

subsection \<open>Leaf bits\<close>

lemma length_set_voxel_bit [simp]: "length (set_voxel_bit ld i b) = length ld"
  by (simp add: set_voxel_bit_def)

lemma get_set_voxel_bit:
  assumes "length ld = 2" and "i < 64" and "j < 64"
  shows "get_voxel_bit (set_voxel_bit ld i b) j = (if j = i then b else get_voxel_bit ld j)"
proof -
  from assms have id: "i div 32 < length ld" and jd: "j div 32 < length ld" by simp_all
  have split: "j = i \<longleftrightarrow> j div 32 = i div 32 \<and> j mod 32 = i mod 32"
    by (metis div_mult_mod_eq)
  show ?thesis
  proof (cases "j div 32 = i div 32")
    case True
    with id show ?thesis
      by (auto simp: get_voxel_bit_def set_voxel_bit_def bit_set_bit_iff bit_unset_bit_iff split)
  next
    case False
    with id jd split show ?thesis
      by (auto simp: get_voxel_bit_def set_voxel_bit_def)
  qed
qed

lemma fold_upt_Suc: "fold f [0..<Suc n] s = f n (fold f [0..<n] s)"
  by simp

lemma edit_leaf_fold:
  assumes "length ld = 2" and "n \<le> 64"
    and "fold (edit_leaf_voxel cfg editor coord) [0..<n] (ld, ch) = (ld', ch')"
  shows "length ld' = 2
       \<and> (\<forall>v < 64. get_voxel_bit ld' v = (if v < n then new_voxel cfg editor coord ld v else get_voxel_bit ld v))
       \<and> ((\<forall>v < n. new_voxel cfg editor coord ld v = get_voxel_bit ld v) \<longrightarrow> ld' = ld \<and> ch' = ch)
       \<and> ((\<exists>v < n. new_voxel cfg editor coord ld v \<noteq> get_voxel_bit ld v) \<longrightarrow> ch')"
  using assms(2,3)
proof (induction n arbitrary: ld' ch')
  case 0
  then show ?case using assms(1) by simp
next
  case (Suc n)
  obtain ld1 ch1 where mid: "fold (edit_leaf_voxel cfg editor coord) [0..<n] (ld, ch) = (ld1, ch1)"
    by (cases "fold (edit_leaf_voxel cfg editor coord) [0..<n] (ld, ch)")
  from Suc.prems(1) have n: "n \<le> 64" "n < 64" by linarith+
  from Suc.IH [OF n(1) mid]
  have len: "length ld1 = 2"
    and bits1: "\<And>v. v < 64 \<Longrightarrow> get_voxel_bit ld1 v =
        (if v < n then new_voxel cfg editor coord ld v else get_voxel_bit ld v)"
    and same1: "(\<forall>v < n. new_voxel cfg editor coord ld v = get_voxel_bit ld v) \<Longrightarrow> ld1 = ld \<and> ch1 = ch"
    and chg1: "(\<exists>v < n. new_voxel cfg editor coord ld v \<noteq> get_voxel_bit ld v) \<Longrightarrow> ch1"
    by blast+
  from bits1 [OF n(2)] have old: "get_voxel_bit ld1 n = get_voxel_bit ld n" by simp
  from Suc.prems(2) have step: "edit_leaf_voxel cfg editor coord n (ld1, ch1) = (ld', ch')"
    unfolding fold_upt_Suc mid .
  let ?new = "new_voxel cfg editor coord ld n"
  have split: "v < Suc n \<longleftrightarrow> v < n \<or> v = n" for v by (rule less_Suc_eq)
  show ?case
  proof (cases "?new = get_voxel_bit ld n")
    case True
    with step old have eq: "ld' = ld1" "ch' = ch1"
      by (auto simp: edit_leaf_voxel_def new_voxel_def Let_def)
    have b: "\<forall>v < 64. get_voxel_bit ld' v =
        (if v < Suc n then new_voxel cfg editor coord ld v else get_voxel_bit ld v)"
    proof (intro allI impI)
      fix v :: nat assume v: "v < 64"
      show "get_voxel_bit ld' v =
        (if v < Suc n then new_voxel cfg editor coord ld v else get_voxel_bit ld v)"
      proof (cases "v = n")
        case True
        with \<open>?new = get_voxel_bit ld n\<close> old show ?thesis by (simp add: eq)
      next
        case False
        then have "v < Suc n \<longleftrightarrow> v < n" by linarith
        with bits1 [OF v] show ?thesis by (simp add: eq)
      qed
    qed
    have s: "(\<forall>v < Suc n. new_voxel cfg editor coord ld v = get_voxel_bit ld v) \<longrightarrow> ld' = ld \<and> ch' = ch"
      using same1 by (simp add: eq split)
    have c: "(\<exists>v < Suc n. new_voxel cfg editor coord ld v \<noteq> get_voxel_bit ld v) \<longrightarrow> ch'"
      using chg1 True unfolding eq split by blast
    from len b s c show ?thesis by (simp add: eq)
  next
    case False
    with step old have eq: "ld' = set_voxel_bit ld1 n ?new" "ch'"
      by (auto simp: edit_leaf_voxel_def new_voxel_def Let_def)
    have b: "\<forall>v < 64. get_voxel_bit ld' v =
        (if v < Suc n then new_voxel cfg editor coord ld v else get_voxel_bit ld v)"
    proof (intro allI impI)
      fix v :: nat assume v: "v < 64"
      show "get_voxel_bit ld' v =
        (if v < Suc n then new_voxel cfg editor coord ld v else get_voxel_bit ld v)"
      proof (cases "v = n")
        case True
        with get_set_voxel_bit [OF len n(2) v, of ?new] show ?thesis by (simp add: eq)
      next
        case False
        then have "v < Suc n \<longleftrightarrow> v < n" by linarith
        with get_set_voxel_bit [OF len n(2) v, of ?new] bits1 [OF v] False show ?thesis
          by (simp add: eq)
      qed
    qed
    have s: "(\<forall>v < Suc n. new_voxel cfg editor coord ld v = get_voxel_bit ld v) \<longrightarrow> ld' = ld \<and> ch' = ch"
      using False by auto
    from len b s eq show ?thesis by simp
  qed
qed

subsection \<open>Packing and unpacking the children\<close>

lemma get_packed_node_inplace_pack8: "get_packed_node_inplace children = pack8 (tl children)"
  by (simp add: get_packed_node_inplace_def pack8_def)

lemma bit_childmask_of:
  "length cs = 8 \<Longrightarrow> bit (childmask_of cs) i \<longleftrightarrow> i < 8 \<and> cs ! i \<noteq> Null"
  by (auto simp: childmask_of_def bit_horner_sum_bit_word_iff)

lemma length_filter_nth:
  "length (filter (\<lambda>i. P (xs ! i)) [0..<length xs]) = length (filter P xs)"
proof -
  have "filter P xs = filter P (map (\<lambda>i. xs ! i) [0..<length xs])"
    by (simp add: map_nth)
  also have "\<dots> = map (\<lambda>i. xs ! i) (filter (\<lambda>i. P (xs ! i)) [0..<length xs])"
    by (simp add: filter_map comp_def)
  finally show ?thesis by simp
qed

lemma popcount8_childmask_of:
  assumes "length cs = 8"
  shows "popcount8 (childmask_of cs) = length (filter (\<lambda>c. c \<noteq> Null) cs)"
proof -
  have "filter (bit (childmask_of cs)) [0..<8] = filter (\<lambda>i. cs ! i \<noteq> Null) [0..<8]"
    by (rule filter_cong) (simp_all add: bit_childmask_of [OF assms])
  with length_filter_nth [of "\<lambda>c. c \<noteq> Null" cs] assms show ?thesis
    by (simp add: popcount8_def)
qed

lemma expand_children_filter:
  "expand_children (map (\<lambda>c. c \<noteq> Null) cs) (filter (\<lambda>c. c \<noteq> Null) cs) = cs"
  by (induction cs) simp_all

lemma childmask_bits:
  assumes "length cs = 8"
  shows "map (bit (childmask_of cs)) [0..<8] = map (\<lambda>c. c \<noteq> Null) cs"
  by (rule nth_equalityI) (simp_all add: assms bit_childmask_of)

lemma Filled_not_Null [simp]: "Filled \<noteq> Null" "Null \<noteq> Filled"
  by (simp_all add: Filled_def Null_def)

lemma pack8_all_null:
  assumes "length cs = 8"
  shows "pack8 cs = all_null_node \<longleftrightarrow> cs = replicate 8 Null"
proof
  assume "pack8 cs = all_null_node"
  then have "filter (\<lambda>c. c \<noteq> Null) cs = []" by (simp add: pack8_def all_null_node_def)
  then have "\<forall>c \<in> set cs. c = Null" by (simp add: filter_empty_conv)
  with assms show "cs = replicate 8 Null"
    by (metis replicate_eqI)
next
  have "pack8 (replicate 8 Null) = all_null_node" by code_simp
  moreover assume "cs = replicate 8 Null"
  ultimately show "pack8 cs = all_null_node" by simp
qed

lemma pack8_all_filled:
  assumes "length cs = 8"
  shows "pack8 cs = all_filled_node \<longleftrightarrow> cs = replicate 8 Filled"
proof
  assume "pack8 cs = all_filled_node"
  then have f: "filter (\<lambda>c. c \<noteq> Null) cs = replicate 8 Filled"
    by (simp add: pack8_def all_filled_node_def)
  then have "length (filter (\<lambda>c. c \<noteq> Null) cs) = length cs" using assms by simp
  then have "filter (\<lambda>c. c \<noteq> Null) cs = cs"
    by (metis filter_True length_filter_less less_irrefl_nat filter_id_conv)
  with f show "cs = replicate 8 Filled" by simp
next
  have "pack8 (replicate 8 Filled) = all_filled_node" by code_simp
  moreover assume "cs = replicate 8 Filled"
  ultimately show "pack8 cs = all_filled_node" by simp
qed

subsection \<open>Stored nodes in memory\<close>

lemma stored_mem:
  assumes cfg: "config_ok cfg" and inv: "pool_inv cfg pool" and lv: "lvl < GetNodeLevels cfg"
    and st: "stored cfg pool lvl p node"
  shows "p \<noteq> Null" and "p \<noteq> Filled"
    and "length node = node_words cfg lvl (mem pool (unat p))"
    and "\<forall>j < length node. mem pool (unat p + j) = node ! j"
  using held_mem [OF cfg inv lv stored_held [OF inv lv st]] by simp_all

lemma upsert_node_stored_cases:
  assumes cfg: "config_ok cfg" and inv: "pool_inv cfg pool" and wf: "node_wf cfg lvl node"
    and up: "upsert_node cfg pool lvl node = Inr (p, pool')"
    and l: "l < GetNodeLevels cfg" and st: "stored cfg pool' l a n"
  shows "stored cfg pool l a n \<or> (l = lvl \<and> a = p \<and> n = node)"
proof -
  from wf have lv: "lvl < GetNodeLevels cfg" by (simp add: node_wf_def)
  from calculate_bucket_range obtain k where k: "k < GetBucketsAtLevel cfg lvl"
    and b: "calculate_bucket cfg lvl node = level_base cfg lvl + k" by blast
  let ?b = "level_base cfg lvl + k"
  from upsert_node_cases [OF up] b
  consider "pool' = pool" | "append_node cfg pool ?b node = Inr (p, pool')"
    by auto
  then show ?thesis
  proof cases
    case 1
    with st show ?thesis by simp
  next
    case 2
    note ap = 2
    note A = append_node_Inr [OF ap]
    from inv have cap: "\<forall>b. bucket_words pool b \<le> GetWordsPerBucket cfg"
      by (simp add: pool_inv_def)
    have ext: "pool_ext cfg pool pool'" using ap cap by (rule append_node_ext)
    from st obtain j q where j: "j < GetBucketsAtLevel cfg l"
      and q: "q \<in> set (stored_offsets cfg pool' l (level_base cfg l + j))"
      and a: "a = node_address cfg (level_base cfg l + j) q"
      and r: "read_node cfg pool' l (level_base cfg l + j) q = n"
      by (auto simp: stored_def)
    let ?c = "level_base cfg l + j"
    show ?thesis
    proof (cases "?c = ?b")
      case same: True
      from level_bucket_inj [OF l lv j k same] have ll: "l = lvl" .
      from inv lv k have ok0: "bucket_ok cfg pool lvl ?b" by (simp add: pool_inv_def)
      note S = scan_appended_bucket [OF ap cap wf ok0]
      note R = append_node_read [OF ap wf]
      from q same ll S(1) consider "q \<in> set (stored_offsets cfg pool lvl ?b)" | "q = bucket_words pool ?b"
        by auto
      then show ?thesis
      proof cases
        case 1
        with S(3) r same ll have "read_node cfg pool lvl ?b q = n" by simp
        with 1 k a same ll have "stored cfg pool l a n" by (auto simp: stored_def)
        then show ?thesis ..
      next
        case 2
        with R(1) r same ll A(2) a show ?thesis by simp
      qed
    next
      case other: False
      from inv l j have ok: "bucket_ok cfg pool l ?c" by (simp add: pool_inv_def)
      have same_used: "bucket_words pool' ?c = bucket_words pool ?c"
        using other by (simp add: A(3))
      note O = scan_other_bucket [OF ext same_used ok]
      from q O(1) have q': "q \<in> set (stored_offsets cfg pool l ?c)" by simp
      with O(3) r have "read_node cfg pool l ?c q = n" by simp
      with q' j a have "stored cfg pool l a n" by (auto simp: stored_def)
      then show ?thesis ..
    qed
  qed
qed

subsection \<open>The invariant of the engine\<close>

lemma leaf_level_less: "config_ok cfg \<Longrightarrow> GetLeafLevel cfg < GetNodeLevels cfg"
  by (simp add: config_ok_def GetLeafLevel_def)

lemma valid_ptr_sentinel [simp]:
  "valid_ptr cfg pool lvl Null" "valid_ptr cfg pool lvl Filled"
  by (cases "GetLeafLevel cfg - lvl"; simp add: valid_ptr_def)+

lemma valid_leaf_iff:
  "valid_ptr cfg pool (GetLeafLevel cfg) p \<longleftrightarrow>
     p = Null \<or> p = Filled
     \<or> (\<exists>node. held cfg pool (GetLeafLevel cfg) p node
           \<and> node \<noteq> [0, 0] \<and> node \<noteq> [0xFFFFFFFF, 0xFFFFFFFF])"
  by (simp add: valid_ptr_def)

lemma valid_inner_iff:
  assumes "lvl < GetLeafLevel cfg"
  shows "valid_ptr cfg pool lvl p \<longleftrightarrow>
     p = Null \<or> p = Filled
     \<or> (\<exists>cs. length cs = 8 \<and> held cfg pool lvl p (pack8 cs)
           \<and> (\<forall>c \<in> set cs. valid_ptr cfg pool (Suc lvl) c)
           \<and> cs \<noteq> replicate 8 Null \<and> cs \<noteq> replicate 8 Filled)"
proof -
  from assms have d: "GetLeafLevel cfg - lvl = Suc (GetLeafLevel cfg - Suc lvl)" by simp
  from assms have l: "GetLeafLevel cfg - Suc (GetLeafLevel cfg - Suc lvl) = lvl" by simp
  show ?thesis unfolding valid_ptr_def d good_ptr.simps l ..
qed

lemma good_ptr_ext:
  assumes "pool_ext cfg pool pool'"
  shows "good_ptr cfg pool d p \<Longrightarrow> good_ptr cfg pool' d p"
proof (induction d arbitrary: p)
  case 0
  then show ?case using held_ext [OF assms] by auto
next
  case (Suc d)
  from Suc.prems consider "p = Null" | "p = Filled"
    | cs where "length cs = 8" "held cfg pool (GetLeafLevel cfg - Suc d) p (pack8 cs)"
        "\<forall>c \<in> set cs. good_ptr cfg pool d c" "cs \<noteq> replicate 8 Null" "cs \<noteq> replicate 8 Filled"
    by auto
  then show ?case
  proof cases
    case 3
    from 3(3) Suc.IH have "\<forall>c \<in> set cs. good_ptr cfg pool' d c" by blast
    with 3 held_ext [OF assms 3(2)] show ?thesis by auto
  qed simp_all
qed

lemma valid_ptr_ext:
  assumes "pool_inv cfg pool" and "pool_ext cfg pool pool'" and "lvl < GetNodeLevels cfg"
    and "valid_ptr cfg pool lvl p"
  shows "valid_ptr cfg pool' lvl p"
  using assms(4) good_ptr_ext [OF assms(2)] by (simp add: valid_ptr_def)

lemma unpack_held:
  assumes cfg: "config_ok cfg" and inv: "pool_inv cfg pool"
    and lv: "lvl < GetLeafLevel cfg" and len: "length cs = 8"
    and st: "held cfg pool lvl p (pack8 cs)"
  shows "get_unpacked_node_array cfg pool p = childmask_of cs # cs"
proof -
  from lv leaf_level_less [OF cfg] have lv': "lvl < GetNodeLevels cfg" by simp
  note M = held_mem [OF cfg inv lv' st]
  let ?f = "filter (\<lambda>c. c \<noteq> Null) cs"
  from M(4) have hd: "mem pool (unat p) = childmask_of cs"
    by (auto simp: pack8_def dest: spec [of _ 0])
  have tl: "map (\<lambda>j. mem pool (unat p + 1 + j)) [0..<popcount8 (childmask_of cs)] = ?f"
  proof (rule nth_equalityI)
    show "length (map (\<lambda>j. mem pool (unat p + 1 + j)) [0..<popcount8 (childmask_of cs)]) = length ?f"
      by (simp add: popcount8_childmask_of [OF len])
    fix i assume "i < length (map (\<lambda>j. mem pool (unat p + 1 + j)) [0..<popcount8 (childmask_of cs)])"
    then have i: "i < length ?f" by (simp add: popcount8_childmask_of [OF len])
    then have "Suc i < length (pack8 cs)" by (simp add: pack8_def)
    with M(4) have "mem pool (unat p + Suc i) = pack8 cs ! Suc i" by blast
    with i show "map (\<lambda>j. mem pool (unat p + 1 + j)) [0..<popcount8 (childmask_of cs)] ! i = ?f ! i"
      by (simp add: pack8_def popcount8_childmask_of [OF len])
  qed
  have tl': "map (\<lambda>j. mem pool (Suc (unat p + j))) [0..<popcount8 (childmask_of cs)] = ?f"
    using tl by simp
  from M(1,2) show ?thesis
    by (simp add: get_unpacked_node_array_def Let_def hd tl' childmask_bits [OF len]
        expand_children_filter)
qed

lemma path_ok_Cons [simp]: "path_ok (i # path) v \<longleftrightarrow> i < 8 \<and> path_ok path v"
  by (auto simp: path_ok_def)

lemma nth_Cons_replicate8: "j < 8 \<Longrightarrow> (m # replicate 8 c) ! (j + 1) = c"
  by simp

lemma unpack_sentinel:
  "get_unpacked_node_array cfg pool Null = 0 # replicate 8 Null"
  "get_unpacked_node_array cfg pool Filled = 0xFF # replicate 8 Filled"
  by (simp_all add: get_unpacked_node_array_def)

lemma unpack_valid:
  assumes cfg: "config_ok cfg" and inv: "engine_inv cfg pool"
    and lv: "lvl < GetLeafLevel cfg" and v: "valid_ptr cfg pool lvl p"
  shows "length (get_unpacked_node_array cfg pool p) = 9"
    and "\<forall>j < 8. valid_ptr cfg pool (Suc lvl) (get_unpacked_node_array cfg pool p ! (j + 1))"
proof -
  from v valid_inner_iff [OF lv] consider "p = Null" | "p = Filled"
    | cs where "length cs = 8" "held cfg pool lvl p (pack8 cs)"
        "\<forall>c \<in> set cs. valid_ptr cfg pool (Suc lvl) c"
    by blast
  then have "length (get_unpacked_node_array cfg pool p) = 9
      \<and> (\<forall>j < 8. valid_ptr cfg pool (Suc lvl) (get_unpacked_node_array cfg pool p ! (j + 1)))"
  proof cases
    case 1
    then show ?thesis by (simp add: unpack_sentinel)
  next
    case 2
    then show ?thesis by (simp add: unpack_sentinel)
  next
    case 3
    from inv have pinv: "pool_inv cfg pool" by (simp add: engine_inv_def)
    from unpack_held [OF cfg pinv lv 3(1,2)]
    have "get_unpacked_node_array cfg pool p = childmask_of cs # cs" .
    with 3 show ?thesis by simp
  qed
  then show "length (get_unpacked_node_array cfg pool p) = 9"
    and "\<forall>j < 8. valid_ptr cfg pool (Suc lvl) (get_unpacked_node_array cfg pool p ! (j + 1))"
    by simp_all
qed

lemma unpack_ext:
  assumes cfg: "config_ok cfg" and inv: "engine_inv cfg pool" and inv': "pool_inv cfg pool'"
    and ext: "pool_ext cfg pool pool'"
    and lv: "lvl < GetLeafLevel cfg" and v: "valid_ptr cfg pool lvl p"
  shows "get_unpacked_node_array cfg pool' p = get_unpacked_node_array cfg pool p"
proof -
  from v valid_inner_iff [OF lv] consider "p = Null" | "p = Filled"
    | cs where "length cs = 8" "held cfg pool lvl p (pack8 cs)"
    by blast
  then show ?thesis
  proof cases
    case 1
    then show ?thesis by (simp add: unpack_sentinel)
  next
    case 2
    then show ?thesis by (simp add: unpack_sentinel)
  next
    case 3
    from inv have pinv: "pool_inv cfg pool" by (simp add: engine_inv_def)
    from unpack_held [OF cfg pinv lv 3] unpack_held [OF cfg inv' lv 3(1) held_ext [OF ext 3(2)]]
    show ?thesis by simp
  qed
qed

lemma leaf_held:
  assumes cfg: "config_ok cfg" and inv: "pool_inv cfg pool"
    and st: "held cfg pool (GetLeafLevel cfg) p node"
  shows "get_leaf_array pool p = node"
proof -
  note M = held_mem [OF cfg inv leaf_level_less [OF cfg] st]
  from M(3) have len: "length node = 2" by (simp add: node_words_def)
  with M(4) have "mem pool (unat p) = node ! 0" "mem pool (unat p + 1) = node ! 1"
    by (auto dest: spec [of _ 0] spec [of _ 1])
  with M(1,2) have "get_leaf_array pool p = [node ! 0, node ! 1]"
    by (simp add: get_leaf_array_def)
  also from len have "\<dots> = node"
    by (cases node; cases "tl node") auto
  finally show ?thesis .
qed

lemma leaf_ext:
  assumes cfg: "config_ok cfg" and inv: "pool_inv cfg pool" and inv': "pool_inv cfg pool'"
    and ext: "pool_ext cfg pool pool'" and v: "valid_ptr cfg pool (GetLeafLevel cfg) p"
  shows "get_leaf_array pool' p = get_leaf_array pool p"
proof -
  from v valid_leaf_iff consider "p = Null" | "p = Filled"
    | node where "held cfg pool (GetLeafLevel cfg) p node"
    by blast
  then show ?thesis
  proof cases
    case 1
    then show ?thesis by (simp add: get_leaf_array_def)
  next
    case 2
    then show ?thesis by (simp add: get_leaf_array_def)
  next
    case 3
    from leaf_held [OF cfg inv 3] leaf_held [OF cfg inv' held_ext [OF ext 3]]
    show ?thesis by simp
  qed
qed

lemma bit_ones32: "n < 32 \<Longrightarrow> bit (0xFFFFFFFF :: Word) n"
proof -
  have "(0xFFFFFFFF :: Word) = - 1" by simp
  then show "n < 32 \<Longrightarrow> bit (0xFFFFFFFF :: Word) n" by (simp only: bit_minus_1_iff) simp
qed

lemma get_voxel_bit_sentinel:
  assumes "v < 64"
  shows "\<not> get_voxel_bit [0, 0] v" and "get_voxel_bit [0xFFFFFFFF, 0xFFFFFFFF] v"
proof -
  from assms have d: "v div 32 = 0 \<or> v div 32 = 1" by auto
  then show "\<not> get_voxel_bit [0, 0] v" by (auto simp: get_voxel_bit_def)
  have "v mod 32 < 32" by simp
  from bit_ones32 [OF this] d show "get_voxel_bit [0xFFFFFFFF, 0xFFFFFFFF] v"
    by (auto simp: get_voxel_bit_def)
qed

lemma get_voxel_Null: "path_ok path v \<Longrightarrow> \<not> get_voxel cfg pool Null path v"
  by (induction path)
     (simp_all add: path_ok_def get_leaf_array_def get_voxel_bit_sentinel unpack_sentinel)

lemma get_voxel_Filled: "path_ok path v \<Longrightarrow> get_voxel cfg pool Filled path v"
  by (induction path)
     (simp_all add: path_ok_def get_leaf_array_def get_voxel_bit_sentinel unpack_sentinel)

lemma get_voxel_ext:
  assumes cfg: "config_ok cfg" and inv: "engine_inv cfg pool" and inv': "pool_inv cfg pool'"
    and ext: "pool_ext cfg pool pool'"
  shows "lvl \<le> GetLeafLevel cfg \<Longrightarrow> valid_ptr cfg pool lvl p \<Longrightarrow>
         length path = GetLeafLevel cfg - lvl \<Longrightarrow> path_ok path v \<Longrightarrow>
         get_voxel cfg pool' p path v = get_voxel cfg pool p path v"
proof (induction path arbitrary: lvl p)
  case Nil
  then have "lvl = GetLeafLevel cfg" by simp
  with Nil.prems(2) inv leaf_ext [OF cfg _ inv' ext] show ?case
    by (simp add: engine_inv_def)
next
  case (Cons i path)
  from Cons.prems(1,3) have lv: "lvl < GetLeafLevel cfg" by simp
  from Cons.prems(4) have i: "i < 8" and ok: "path_ok path v" by simp_all
  note U = unpack_valid [OF cfg inv lv Cons.prems(2)]
  from unpack_ext [OF cfg inv inv' ext lv Cons.prems(2)]
  have eq: "get_unpacked_node_array cfg pool' p = get_unpacked_node_array cfg pool p" .
  from U(2) i have vc: "valid_ptr cfg pool (Suc lvl) (get_unpacked_node_array cfg pool p ! (i + 1))"
    by simp
  from lv have le: "Suc lvl \<le> GetLeafLevel cfg" by simp
  from Cons.prems(3) lv have len: "length path = GetLeafLevel cfg - Suc lvl" by simp
  from Cons.IH [OF le vc len ok] show ?case by (simp add: eq)
qed

subsection \<open>Upserts keep the invariant\<close>

lemma engine_inv_upsert:
  assumes cfg: "config_ok cfg" and inv: "engine_inv cfg pool" and wf: "node_wf cfg lvl node"
    and up: "upsert_node cfg pool lvl node = Inr (p, pool')"
    and inner: "lvl < GetLeafLevel cfg \<longrightarrow>
       (\<exists>cs. length cs = 8 \<and> node = pack8 cs \<and> (\<forall>c \<in> set cs. valid_ptr cfg pool (Suc lvl) c)
            \<and> cs \<noteq> replicate 8 Null \<and> cs \<noteq> replicate 8 Filled)"
    and leaf: "lvl = GetLeafLevel cfg \<longrightarrow>
       length node = 2 \<and> node \<noteq> [0, 0] \<and> node \<noteq> [0xFFFFFFFF, 0xFFFFFFFF]"
  shows "engine_inv cfg pool'"
proof -
  from inv have pinv: "pool_inv cfg pool" and cl: "pool_closed cfg pool"
    by (simp_all add: engine_inv_def)
  note U = upsert_node_sound [OF cfg pinv wf up]
  note L = leaf_level_less [OF cfg]
  have c1: "\<exists>cs. length cs = 8 \<and> n = pack8 cs \<and> (\<forall>c \<in> set cs. valid_ptr cfg pool' (Suc l) c)
              \<and> cs \<noteq> replicate 8 Null \<and> cs \<noteq> replicate 8 Filled"
    if l: "l < GetLeafLevel cfg" and st: "stored cfg pool' l a n" for l a n
  proof -
    from l L have l': "l < GetNodeLevels cfg" and sl: "Suc l < GetNodeLevels cfg"
      by (simp_all add: GetLeafLevel_def)
    from upsert_node_stored_cases [OF cfg pinv wf up l' st]
    have "\<exists>cs. length cs = 8 \<and> n = pack8 cs \<and> (\<forall>c \<in> set cs. valid_ptr cfg pool (Suc l) c)
              \<and> cs \<noteq> replicate 8 Null \<and> cs \<noteq> replicate 8 Filled"
    proof
      assume "stored cfg pool l a n"
      with cl l show ?thesis unfolding pool_closed_def by blast
    next
      assume "l = lvl \<and> a = p \<and> n = node"
      with inner l show ?thesis by blast
    qed
    then obtain cs where cs: "length cs = 8" "n = pack8 cs"
      "\<forall>c \<in> set cs. valid_ptr cfg pool (Suc l) c" "cs \<noteq> replicate 8 Null" "cs \<noteq> replicate 8 Filled"
      by blast
    from cs(3) have "\<forall>c \<in> set cs. valid_ptr cfg pool' (Suc l) c"
      using valid_ptr_ext [OF pinv U(2) sl] by blast
    with cs show ?thesis by blast
  qed
  have c2: "length n = 2 \<and> n \<noteq> [0, 0] \<and> n \<noteq> [0xFFFFFFFF, 0xFFFFFFFF]"
    if st: "stored cfg pool' (GetLeafLevel cfg) a n" for a n
  proof -
    from upsert_node_stored_cases [OF cfg pinv wf up L st] show ?thesis
    proof
      assume "stored cfg pool (GetLeafLevel cfg) a n"
      with cl show ?thesis unfolding pool_closed_def by blast
    next
      assume "GetLeafLevel cfg = lvl \<and> a = p \<and> n = node"
      with leaf show ?thesis by blast
    qed
  qed
  from c1 c2 have "pool_closed cfg pool'" unfolding pool_closed_def by blast
  with U(1) show ?thesis by (simp add: engine_inv_def)
qed

lemma node_wf_pack8:
  assumes "config_ok cfg" and "lvl < GetLeafLevel cfg" and "length cs = 8"
  shows "node_wf cfg lvl (pack8 cs)"
  using assms leaf_level_less [of cfg]
  by (simp add: node_wf_def node_words_def pack8_def popcount8_childmask_of)

lemma node_wf_leaf:
  assumes "config_ok cfg" and "length ld = 2"
  shows "node_wf cfg (GetLeafLevel cfg) ld"
  using assms leaf_level_less [of cfg]
  by (auto simp: node_wf_def node_words_def)

lemma upsert_inner_node_correct:
  assumes cfg: "config_ok cfg" and inv: "engine_inv cfg pool"
    and lv: "lvl < GetLeafLevel cfg" and len: "length cs = 8"
    and vc: "\<forall>c \<in> set cs. valid_ptr cfg pool (Suc lvl) c"
    and up: "upsert_inner_node cfg pool lvl (pack8 cs) = Inr (p, pool')"
  shows "engine_inv cfg pool'" and "pool_ext cfg pool pool'" and "valid_ptr cfg pool' lvl p"
    and "tl (get_unpacked_node_array cfg pool' p) = cs"
proof -
  have "engine_inv cfg pool' \<and> pool_ext cfg pool pool' \<and> valid_ptr cfg pool' lvl p
      \<and> tl (get_unpacked_node_array cfg pool' p) = cs"
  proof (cases "pack8 cs = all_null_node")
    case True
    with up have "p = Null" "pool' = pool" by (simp_all add: upsert_inner_node_def)
    moreover from True have "cs = replicate 8 Null" by (simp add: pack8_all_null [OF len])
    ultimately show ?thesis using inv by (simp add: unpack_sentinel)
  next
    case nn: False
    show ?thesis
    proof (cases "pack8 cs = all_filled_node")
      case True
      with up nn have "p = Filled" "pool' = pool" by (simp_all add: upsert_inner_node_def)
      moreover from True have "cs = replicate 8 Filled" by (simp add: pack8_all_filled [OF len])
      ultimately show ?thesis using inv by (simp add: unpack_sentinel)
    next
      case nf: False
      with up nn have un: "upsert_node cfg pool lvl (pack8 cs) = Inr (p, pool')"
        by (simp add: upsert_inner_node_def)
      note wf = node_wf_pack8 [OF cfg lv len]
      from inv have pinv: "pool_inv cfg pool" by (simp add: engine_inv_def)
      note U = upsert_node_sound [OF cfg pinv wf un]
      from nn nf have "cs \<noteq> replicate 8 Null" "cs \<noteq> replicate 8 Filled"
        by (simp_all add: pack8_all_null [OF len] pack8_all_filled [OF len])
      with len vc have inner: "lvl < GetLeafLevel cfg \<longrightarrow>
         (\<exists>cs'. length cs' = 8 \<and> pack8 cs = pack8 cs' \<and> (\<forall>c \<in> set cs'. valid_ptr cfg pool (Suc lvl) c)
            \<and> cs' \<noteq> replicate 8 Null \<and> cs' \<noteq> replicate 8 Filled)"
        by blast
      from lv have leaf: "lvl = GetLeafLevel cfg \<longrightarrow>
         length (pack8 cs) = 2 \<and> pack8 cs \<noteq> [0, 0] \<and> pack8 cs \<noteq> [0xFFFFFFFF, 0xFFFFFFFF]"
        by simp
      have inv': "engine_inv cfg pool'"
        using cfg inv wf un inner leaf by (rule engine_inv_upsert)
      from lv leaf_level_less [OF cfg] have sl: "Suc lvl < GetNodeLevels cfg"
        by (simp add: GetLeafLevel_def)
      from vc valid_ptr_ext [OF pinv U(2) sl]
      have vc': "\<forall>c \<in> set cs. valid_ptr cfg pool' (Suc lvl) c" by blast
      from len U(3) vc' \<open>cs \<noteq> replicate 8 Null\<close> \<open>cs \<noteq> replicate 8 Filled\<close>
      have v: "valid_ptr cfg pool' lvl p" unfolding valid_inner_iff [OF lv] by blast
      from unpack_held [OF cfg U(1) lv len U(3)]
      have "tl (get_unpacked_node_array cfg pool' p) = cs" by simp
      with inv' U(2) v show ?thesis by simp
    qed
  qed
  then show "engine_inv cfg pool'" and "pool_ext cfg pool pool'" and "valid_ptr cfg pool' lvl p"
    and "tl (get_unpacked_node_array cfg pool' p) = cs"
    by simp_all
qed

lemma upsert_leaf_correct:
  assumes cfg: "config_ok cfg" and inv: "engine_inv cfg pool" and len: "length ld = 2"
    and up: "upsert_leaf cfg pool (GetLeafLevel cfg) ld = Inr (p, pool')"
  shows "engine_inv cfg pool'" and "pool_ext cfg pool pool'"
    and "valid_ptr cfg pool' (GetLeafLevel cfg) p" and "get_leaf_array pool' p = ld"
proof -
  have "engine_inv cfg pool' \<and> pool_ext cfg pool pool' \<and> valid_ptr cfg pool' (GetLeafLevel cfg) p
      \<and> get_leaf_array pool' p = ld"
  proof (cases "ld = [0, 0]")
    case True
    with up have "p = Null" "pool' = pool" by (simp_all add: upsert_leaf_def)
    with True inv show ?thesis by (simp add: get_leaf_array_def)
  next
    case nn: False
    show ?thesis
    proof (cases "ld = [0xFFFFFFFF, 0xFFFFFFFF]")
      case True
      with up nn have "p = Filled" "pool' = pool" by (simp_all add: upsert_leaf_def)
      with True inv show ?thesis by (simp add: get_leaf_array_def)
    next
      case nf: False
      with up nn have un: "upsert_node cfg pool (GetLeafLevel cfg) ld = Inr (p, pool')"
        by (simp add: upsert_leaf_def)
      note wf = node_wf_leaf [OF cfg len]
      from inv have pinv: "pool_inv cfg pool" by (simp add: engine_inv_def)
      note U = upsert_node_sound [OF cfg pinv wf un]
      have inner: "GetLeafLevel cfg < GetLeafLevel cfg \<longrightarrow>
         (\<exists>cs. length cs = 8 \<and> ld = pack8 cs
            \<and> (\<forall>c \<in> set cs. valid_ptr cfg pool (Suc (GetLeafLevel cfg)) c)
            \<and> cs \<noteq> replicate 8 Null \<and> cs \<noteq> replicate 8 Filled)"
        by simp
      from len nn nf have leaf: "GetLeafLevel cfg = GetLeafLevel cfg \<longrightarrow>
         length ld = 2 \<and> ld \<noteq> [0, 0] \<and> ld \<noteq> [0xFFFFFFFF, 0xFFFFFFFF]"
        by simp
      have inv': "engine_inv cfg pool'"
        using cfg inv wf un inner leaf by (rule engine_inv_upsert)
      from U(3) nn nf have v: "valid_ptr cfg pool' (GetLeafLevel cfg) p"
        unfolding valid_leaf_iff by blast
      from leaf_held [OF cfg U(1) U(3)] inv' U(2) v show ?thesis by simp
    qed
  qed
  then show "engine_inv cfg pool'" and "pool_ext cfg pool pool'"
    and "valid_ptr cfg pool' (GetLeafLevel cfg) p" and "get_leaf_array pool' p = ld"
    by simp_all
qed

subsection \<open>What an edit is to compute\<close>

lemma edited_voxel_Cons:
  "edited_voxel cfg editor pool node coord (i # path) v =
     child_voxel cfg editor pool (get_unpacked_node_array cfg pool node ! (i + 1))
       (get_child_coord coord i) path v"
  by (simp add: child_voxel_def Let_def)

lemma level_base_ge: "n \<le> GetNodeLevels cfg \<Longrightarrow> n \<le> level_base cfg n"
proof -
  have "length xs \<le> sum_list (map (\<lambda>b. 2 ^ b) xs)" for xs :: "nat list"
  proof (induction xs)
    case Nil
    then show ?case by simp
  next
    case (Cons x xs)
    have "(1::nat) \<le> 2 ^ x" by simp
    with Cons have "Suc (length xs) \<le> 2 ^ x + sum_list (map (\<lambda>b. 2 ^ b) xs)" by linarith
    then show ?case by simp
  qed
  from this [of "take n (bucket_bits_each_level cfg)"]
  show "n \<le> GetNodeLevels cfg \<Longrightarrow> n \<le> level_base cfg n"
    by (simp add: level_base_def GetNodeLevels_def)
qed

lemma node_levels_bound:
  assumes "config_ok cfg"
  shows "GetNodeLevels cfg \<le> 2 ^ 32 - 2"
proof -
  have "GetNodeLevels cfg \<le> GetTotalBuckets cfg"
    unfolding GetTotalBuckets_def by (rule level_base_ge) simp
  also have "\<dots> \<le> GetTotalWords cfg"
    by (simp add: GetTotalWords_def GetWordsPerBucket_def GetWordsPerPage_def GetPagesPerBucket_def)
  finally show ?thesis using assms by (simp add: config_ok_def)
qed

lemma is_leaf_level_unat:
  assumes "config_ok cfg"
  shows "is_leaf_level cfg coord \<longleftrightarrow> unat (level coord) = GetLeafLevel cfg"
proof -
  from node_levels_bound [OF assms] have "GetLeafLevel cfg < 2 ^ 32"
    by (simp add: GetLeafLevel_def)
  then have "unat (of_nat (GetLeafLevel cfg) :: Word) = GetLeafLevel cfg"
    by (intro of_nat_inverse [OF refl]) simp
  moreover have "of_nat (unat (level coord)) = level coord" by simp
  ultimately show ?thesis
    unfolding is_leaf_level_def by metis
qed

lemma child_level:
  assumes "config_ok cfg" and "unat (level coord) < GetLeafLevel cfg"
  shows "unat (level (get_child_coord coord i)) = Suc (unat (level coord))"
proof -
  from node_levels_bound [OF assms(1)] assms(2) have "unat (level coord) + 1 < 2 ^ 32"
    by (simp add: GetLeafLevel_def)
  then have "unat (level coord + 1) = unat (level coord) + 1"
    by (simp add: unat_word_ariths)
  then show ?thesis by (simp add: get_child_coord_def)
qed

lemma edited_voxel_ext:
  assumes cfg: "config_ok cfg" and inv: "engine_inv cfg pool" and inv': "pool_inv cfg pool'"
    and ext: "pool_ext cfg pool pool'"
  shows "lvl \<le> GetLeafLevel cfg \<Longrightarrow> valid_ptr cfg pool lvl p \<Longrightarrow>
         length path = GetLeafLevel cfg - lvl \<Longrightarrow> path_ok path v \<Longrightarrow>
         edited_voxel cfg editor pool' p coord path v = edited_voxel cfg editor pool p coord path v"
proof (induction path arbitrary: lvl p coord)
  case Nil
  then have "lvl = GetLeafLevel cfg" by simp
  with Nil.prems(2) inv leaf_ext [OF cfg _ inv' ext] show ?case
    by (simp add: engine_inv_def)
next
  case (Cons i path)
  from Cons.prems(1,3) have lv: "lvl < GetLeafLevel cfg" by simp
  from Cons.prems(4) have i: "i < 8" and ok: "path_ok path v" by simp_all
  note U = unpack_valid [OF cfg inv lv Cons.prems(2)]
  from unpack_ext [OF cfg inv inv' ext lv Cons.prems(2)]
  have eq: "get_unpacked_node_array cfg pool' p = get_unpacked_node_array cfg pool p" .
  from U(2) i have vc: "valid_ptr cfg pool (Suc lvl) (get_unpacked_node_array cfg pool p ! (i + 1))"
    by simp
  from lv have le: "Suc lvl \<le> GetLeafLevel cfg" by simp
  from Cons.prems(3) lv have len: "length path = GetLeafLevel cfg - Suc lvl" by simp
  from Cons.IH [OF le vc len ok] get_voxel_ext [OF cfg inv inv' ext le vc len ok]
  show ?case by (simp add: eq Let_def split: EditType.splits)
qed

lemma child_voxel_ext:
  assumes "config_ok cfg" and "engine_inv cfg pool" and "pool_inv cfg pool'"
    and "pool_ext cfg pool pool'" and "lvl \<le> GetLeafLevel cfg" and "valid_ptr cfg pool lvl p"
    and "length path = GetLeafLevel cfg - lvl" and "path_ok path v"
  shows "child_voxel cfg editor pool' p coord path v = child_voxel cfg editor pool p coord path v"
  using edited_voxel_ext [OF assms] get_voxel_ext [OF assms]
  by (simp add: child_voxel_def split: EditType.splits)

lemma edit_leaf_correct:
  assumes cfg: "config_ok cfg" and inv: "engine_inv cfg pool"
    and lv: "unat (level coord) = GetLeafLevel cfg"
    and v: "valid_ptr cfg pool (unat (level coord)) node"
    and ed: "edit_leaf cfg editor pool node coord = Inr (node', pool')"
  shows "edit_post cfg editor pool node coord node' pool'"
proof -
  let ?ld = "get_leaf_array pool node"
  obtain ld' ch' where f: "fold (edit_leaf_voxel cfg editor coord) [0..<64] (?ld, False) = (ld', ch')"
    by (cases "fold (edit_leaf_voxel cfg editor coord) [0..<64] (?ld, False)")
  have len: "length ?ld = 2" by (simp add: get_leaf_array_def)
  from edit_leaf_fold [OF len _ f]
  have len': "length ld' = 2"
    and bits: "\<And>v. v < 64 \<Longrightarrow> get_voxel_bit ld' v = new_voxel cfg editor coord ?ld v"
    and chg: "(\<exists>v < 64. new_voxel cfg editor coord ?ld v \<noteq> get_voxel_bit ?ld v) \<longrightarrow> ch'"
    by simp_all
  have sem: "get_voxel cfg pool' node' path w = edited_voxel cfg editor pool node coord path w"
    if post: "get_voxel_bit (get_leaf_array pool' node') w = new_voxel cfg editor coord ?ld w"
      and p: "length path = GetLeafLevel cfg - unat (level coord)" for path w
    using post p lv by (simp add: new_voxel_def)
  show ?thesis
  proof (cases ch')
    case False
    with ed f have eq: "node' = node" "pool' = pool" by (simp_all add: edit_leaf_def)
    from False chg have same: "\<And>w. w < 64 \<Longrightarrow> new_voxel cfg editor coord ?ld w = get_voxel_bit ?ld w"
      by blast
    show ?thesis
      unfolding edit_post_def eq
      using inv v sem [unfolded eq] same by (simp add: path_ok_def)
  next
    case True
    with ed f lv have up: "upsert_leaf cfg pool (GetLeafLevel cfg) ld' = Inr (node', pool')"
      by (simp add: edit_leaf_def)
    note U = upsert_leaf_correct [OF cfg inv len' up]
    show ?thesis
      unfolding edit_post_def
      using U(1,2,3) sem bits by (simp add: lv U(4) path_ok_def)
  qed
qed

lemma children_step:
  assumes cfg: "config_ok cfg" and inv: "engine_inv cfg pool"
    and lv: "unat (level coord) < GetLeafLevel cfg" and len: "length children = 9"
    and vc: "\<forall>j < 8. valid_ptr cfg pool (Suc (unat (level coord))) (children ! (j + 1))"
    and i: "i < 8"
    and c: "child_post cfg editor pool (children ! (i + 1)) (get_child_coord coord i) new ch pool1"
    and r: "children_post cfg editor pool1 coord (children[i + 1 := new]) (changed \<or> ch) (i + 1)
              children' changed' pool'"
  shows "children_post cfg editor pool coord children changed i children' changed' pool'"
proof -
  let ?L = "Suc (unat (level coord))"
  let ?c1 = "children[i + 1 := new]"
  from child_level [OF cfg lv] have cl: "unat (level (get_child_coord coord i)) = ?L" .
  from lv have le: "?L \<le> GetLeafLevel cfg" by simp
  from c have inv1: "engine_inv cfg pool1" and ext1: "pool_ext cfg pool pool1"
    and vnew: "valid_ptr cfg pool1 ?L new" and same: "\<not> ch \<longrightarrow> new = children ! (i + 1)"
    and sem1: "\<And>path v. length path = GetLeafLevel cfg - ?L \<Longrightarrow> path_ok path v \<Longrightarrow>
        get_voxel cfg pool1 new path v
          = child_voxel cfg editor pool (children ! (i + 1)) (get_child_coord coord i) path v"
    by (simp_all add: child_post_def cl)
  from r have inv': "engine_inv cfg pool'" and ext2: "pool_ext cfg pool1 pool'"
    and len': "length children' = 9"
    and v': "\<forall>j < 8. valid_ptr cfg pool' ?L (children' ! (j + 1))"
    and keep: "\<And>j. j < 8 \<Longrightarrow> j < i + 1 \<Longrightarrow> children' ! (j + 1) = ?c1 ! (j + 1)"
    and unch: "\<not> changed' \<Longrightarrow> \<not> (changed \<or> ch) \<and> (\<forall>j < 8. children' ! (j + 1) = ?c1 ! (j + 1))"
    and sem2: "\<And>j path v. j < 8 \<Longrightarrow> i + 1 \<le> j \<Longrightarrow> length path = GetLeafLevel cfg - ?L \<Longrightarrow>
        path_ok path v \<Longrightarrow>
        get_voxel cfg pool' (children' ! (j + 1)) path v
          = child_voxel cfg editor pool1 (?c1 ! (j + 1)) (get_child_coord coord j) path v"
    by (simp_all add: children_post_def)
  from inv inv1 inv' have pinv: "pool_inv cfg pool" and pinv1: "pool_inv cfg pool1"
    and pinv': "pool_inv cfg pool'"
    by (simp_all add: engine_inv_def)
  have ext: "pool_ext cfg pool pool'" by (rule pool_ext_trans [OF ext1 ext2])
  have other: "?c1 ! (j + 1) = children ! (j + 1)" if "j \<noteq> i" for j
    using that by simp
  have at_i: "?c1 ! (i + 1) = new" using i len by simp
  have k: "\<forall>j < 8. j < i \<longrightarrow> children' ! (j + 1) = children ! (j + 1)"
    using keep other by simp
  have u: "\<not> changed' \<longrightarrow> \<not> changed \<and> (\<forall>j < 8. children' ! (j + 1) = children ! (j + 1))"
  proof
    assume n: "\<not> changed'"
    from unch [OF n] have nc: "\<not> changed" and nch: "\<not> ch"
      and all: "\<forall>j < 8. children' ! (j + 1) = ?c1 ! (j + 1)"
      by simp_all
    from nch same have "?c1 = children" by simp
    with nc all show "\<not> changed \<and> (\<forall>j < 8. children' ! (j + 1) = children ! (j + 1))" by simp
  qed
  have s: "get_voxel cfg pool' (children' ! (j + 1)) path v
      = child_voxel cfg editor pool (children ! (j + 1)) (get_child_coord coord j) path v"
    if j: "j < 8" "i \<le> j" and p: "length path = GetLeafLevel cfg - ?L" and ok: "path_ok path v"
    for j path v
  proof (cases "j = i")
    case True
    from keep [of i] i at_i have "children' ! (i + 1) = new" by simp
    with get_voxel_ext [OF cfg inv1 pinv' ext2 le vnew p ok] sem1 [OF p ok] True
    show ?thesis by simp
  next
    case False
    with j have "i + 1 \<le> j" by simp
    from sem2 [OF j(1) this p ok] other [OF False]
    have "get_voxel cfg pool' (children' ! (j + 1)) path v
        = child_voxel cfg editor pool1 (children ! (j + 1)) (get_child_coord coord j) path v"
      by simp
    also from vc j(1) have "valid_ptr cfg pool ?L (children ! (j + 1))" by simp
    from child_voxel_ext [OF cfg inv pinv1 ext1 le this p ok]
    have "child_voxel cfg editor pool1 (children ! (j + 1)) (get_child_coord coord j) path v
        = child_voxel cfg editor pool (children ! (j + 1)) (get_child_coord coord j) path v" .
    finally show ?thesis .
  qed
  show ?thesis
    unfolding children_post_def
    using inv' ext len' v' k u s by blast
qed

lemma inner_step:
  assumes cfg: "config_ok cfg" and inv: "engine_inv cfg pool"
    and lv: "unat (level coord) < GetLeafLevel cfg"
    and v: "valid_ptr cfg pool (unat (level coord)) node"
    and r: "children_post cfg editor pool coord (get_unpacked_node_array cfg pool node) False 0
              children' changed' pool1"
    and res: "(if \<not> changed' then Inr (node, pool1)
               else upsert_inner_node cfg pool1 (unat (level coord))
                      (get_packed_node_inplace children')) = Inr (node', pool')"
  shows "edit_post cfg editor pool node coord node' pool'"
proof -
  let ?l = "unat (level coord)"
  let ?L = "Suc ?l"
  let ?c0 = "get_unpacked_node_array cfg pool node"
  from lv have le: "?L \<le> GetLeafLevel cfg" by simp
  from lv leaf_level_less [OF cfg] have lvn: "?l < GetNodeLevels cfg" by simp
  note U = unpack_valid [OF cfg inv lv v]
  from r have inv1: "engine_inv cfg pool1" and ext1: "pool_ext cfg pool pool1"
    and len': "length children' = 9"
    and v': "\<forall>j < 8. valid_ptr cfg pool1 ?L (children' ! (j + 1))"
    and unch: "\<not> changed' \<Longrightarrow> \<forall>j < 8. children' ! (j + 1) = ?c0 ! (j + 1)"
    and sem: "\<And>j path w. j < 8 \<Longrightarrow> length path = GetLeafLevel cfg - ?L \<Longrightarrow> path_ok path w \<Longrightarrow>
        get_voxel cfg pool1 (children' ! (j + 1)) path w
          = child_voxel cfg editor pool (?c0 ! (j + 1)) (get_child_coord coord j) path w"
    by (simp_all add: children_post_def)
  from inv inv1 have pinv: "pool_inv cfg pool" and pinv1: "pool_inv cfg pool1"
    by (simp_all add: engine_inv_def)
  have goal: "get_voxel cfg pool' node' path w = edited_voxel cfg editor pool node coord path w"
    if ch: "\<And>j rest. j < 8 \<Longrightarrow> length rest = GetLeafLevel cfg - ?L \<Longrightarrow> path_ok rest w \<Longrightarrow>
          get_voxel cfg pool' (get_unpacked_node_array cfg pool' node' ! (j + 1)) rest w
            = get_voxel cfg pool1 (children' ! (j + 1)) rest w"
      and p: "length path = GetLeafLevel cfg - ?l" and ok: "path_ok path w"
    for path w
  proof (cases path)
    case Nil
    with p lv show ?thesis by simp
  next
    case (Cons j rest)
    with ok have j: "j < 8" and ok': "path_ok rest w" by simp_all
    from Cons p lv have p': "length rest = GetLeafLevel cfg - ?L" by simp
    from ch [OF j p' ok'] sem [OF j p' ok'] show ?thesis
      unfolding Cons edited_voxel_Cons by simp
  qed
  show ?thesis
  proof (cases changed')
    case False
    with res have eq: "node' = node" "pool' = pool1" by simp_all
    have "get_voxel cfg pool1 (get_unpacked_node_array cfg pool1 node ! (j + 1)) rest w
        = get_voxel cfg pool1 (children' ! (j + 1)) rest w" if "j < 8" for j rest w
      using unpack_ext [OF cfg inv pinv1 ext1 lv v] unch [OF False] that by simp
    with goal [unfolded eq]
    have "\<And>path w. length path = GetLeafLevel cfg - ?l \<Longrightarrow> path_ok path w \<Longrightarrow>
        get_voxel cfg pool1 node path w = edited_voxel cfg editor pool node coord path w"
      by blast
    with inv1 ext1 valid_ptr_ext [OF pinv ext1 lvn v] show ?thesis
      unfolding edit_post_def eq by blast
  next
    case True
    let ?cs = "tl children'"
    from len' have lcs: "length ?cs = 8" by simp
    have nth_cs: "?cs ! j = children' ! (j + 1)" if "j < 8" for j
      using that len' by (simp add: nth_tl)
    have vcs: "\<forall>c \<in> set ?cs. valid_ptr cfg pool1 ?L c"
    proof
      fix c
      assume "c \<in> set ?cs"
      then obtain j where "j < 8" "c = ?cs ! j" using lcs by (metis in_set_conv_nth)
      with v' nth_cs show "valid_ptr cfg pool1 ?L c" by simp
    qed
    from True res have up: "upsert_inner_node cfg pool1 ?l (pack8 ?cs) = Inr (node', pool')"
      by (simp add: get_packed_node_inplace_pack8)
    note N = upsert_inner_node_correct [OF cfg inv1 lv lcs vcs up]
    from N(1) have pinv': "pool_inv cfg pool'" by (simp add: engine_inv_def)
    note U' = unpack_valid [OF cfg N(1) lv N(3)]
    have un: "get_unpacked_node_array cfg pool' node' ! (j + 1) = children' ! (j + 1)"
      if "j < 8" for j
    proof -
      from U'(1) that have "get_unpacked_node_array cfg pool' node' ! (j + 1)
          = tl (get_unpacked_node_array cfg pool' node') ! j"
        by (simp add: nth_tl)
      with N(4) nth_cs [OF that] show ?thesis by simp
    qed
    have "get_voxel cfg pool' (get_unpacked_node_array cfg pool' node' ! (j + 1)) rest w
        = get_voxel cfg pool1 (children' ! (j + 1)) rest w"
      if j: "j < 8" and p: "length rest = GetLeafLevel cfg - ?L" and ok: "path_ok rest w"
      for j rest w
    proof -
      from v' j have "valid_ptr cfg pool1 ?L (children' ! (j + 1))" by simp
      from get_voxel_ext [OF cfg inv1 pinv' N(2) le this p ok] un [OF j] show ?thesis by simp
    qed
    with goal
    have "\<And>path w. length path = GetLeafLevel cfg - ?l \<Longrightarrow> path_ok path w \<Longrightarrow>
        get_voxel cfg pool' node' path w = edited_voxel cfg editor pool node coord path w"
      by blast
    with N(1) N(3) pool_ext_trans [OF ext1 N(2)] show ?thesis
      unfolding edit_post_def by blast
  qed
qed

lemma child_step:
  assumes cfg: "config_ok cfg" and inv: "engine_inv cfg pool"
    and v: "valid_ptr cfg pool (unat (level coord)) child"
    and rec: "\<And>node' pool1. EditNode editor cfg coord child = kProceed \<Longrightarrow>
        edit_node cfg editor pool child coord = Inr (node', pool1) \<Longrightarrow>
        edit_post cfg editor pool child coord node' pool1"
    and ed: "edit_child cfg editor pool child coord = Inr (new, ch, pool')"
  shows "child_post cfg editor pool child coord new ch pool'"
proof (cases "EditNode editor cfg coord child")
  case kNotAffected
  with ed have "new = child" "\<not> ch" "pool' = pool" by (simp_all add: edit_child.simps)
  with inv v kNotAffected show ?thesis
    by (simp add: child_post_def child_voxel_def pool_ext_refl)
next
  case kClear
  with ed have "new = Null" "ch" "pool' = pool" by (simp_all add: edit_child.simps)
  with inv kClear show ?thesis
    by (simp add: child_post_def child_voxel_def pool_ext_refl get_voxel_Null)
next
  case kFill
  with ed have "new = Filled" "ch" "pool' = pool"
    by (simp_all add: edit_child.simps get_filled_node_pointer_def)
  with inv kFill show ?thesis
    by (simp add: child_post_def child_voxel_def pool_ext_refl get_voxel_Filled)
next
  case kProceed
  with ed obtain node' where e: "edit_node cfg editor pool child coord = Inr (node', pool')"
    and n: "new = node'" "ch = (node' \<noteq> child)"
    by (auto simp: edit_child.simps split: sum.splits)
  from rec [OF kProceed e] n kProceed show ?thesis
    by (simp add: edit_post_def child_post_def child_voxel_def)
qed

lemma edit_correct:
  shows "config_ok cfg \<Longrightarrow> engine_inv cfg pool \<Longrightarrow> unat (level coord) \<le> GetLeafLevel cfg \<Longrightarrow>
         valid_ptr cfg pool (unat (level coord)) node \<Longrightarrow>
         edit_node cfg editor pool node coord = Inr (node', pool') \<Longrightarrow>
         edit_post cfg editor pool node coord node' pool'"
    and "config_ok cfg \<Longrightarrow> engine_inv cfg pool \<Longrightarrow> unat (level coord) < GetLeafLevel cfg \<Longrightarrow>
         valid_ptr cfg pool (unat (level coord)) node \<Longrightarrow>
         edit_inner_node cfg editor pool node coord = Inr (node', pool') \<Longrightarrow>
         edit_post cfg editor pool node coord node' pool'"
    and "config_ok cfg \<Longrightarrow> engine_inv cfg pool \<Longrightarrow> unat (level coord) < GetLeafLevel cfg \<Longrightarrow>
         length children = 9 \<Longrightarrow>
         \<forall>j < 8. valid_ptr cfg pool (Suc (unat (level coord))) (children ! (j + 1)) \<Longrightarrow>
         edit_children cfg editor pool coord children changed i = Inr (children', changed', pool') \<Longrightarrow>
         children_post cfg editor pool coord children changed i children' changed' pool'"
    and "config_ok cfg \<Longrightarrow> engine_inv cfg pool \<Longrightarrow> unat (level coord) \<le> GetLeafLevel cfg \<Longrightarrow>
         valid_ptr cfg pool (unat (level coord)) child \<Longrightarrow>
         edit_child cfg editor pool child coord = Inr (new, ch, pool') \<Longrightarrow>
         child_post cfg editor pool child coord new ch pool'"
proof (induction cfg editor pool node coord and cfg editor pool node coord
    and cfg editor pool coord children changed i and cfg editor pool child coord
    arbitrary: node' pool' and node' pool' and children' changed' pool' and new ch pool'
    rule: edit_node_edit_inner_node_edit_children_edit_child.induct)
  case (1 cfg editor pool node coord)
  show ?case
  proof (cases "is_leaf_level cfg coord")
    case True
    with "1.prems"(5) have e: "edit_leaf cfg editor pool node coord = Inr (node', pool')"
      by (simp add: edit_node.simps)
    from True have "unat (level coord) = GetLeafLevel cfg"
      by (simp add: is_leaf_level_unat [OF "1.prems"(1)])
    from edit_leaf_correct [OF "1.prems"(1,2) this "1.prems"(4) e] show ?thesis .
  next
    case False
    with "1.prems"(5) have e: "edit_inner_node cfg editor pool node coord = Inr (node', pool')"
      by (simp add: edit_node.simps)
    from False "1.prems"(3) have "unat (level coord) < GetLeafLevel cfg"
      by (simp add: is_leaf_level_unat [OF "1.prems"(1)])
    from "1.IH" [OF False "1.prems"(1,2) this "1.prems"(4) e] show ?thesis .
  qed
next
  case (2 cfg editor pool node coord)
  let ?c0 = "get_unpacked_node_array cfg pool node"
  from "2.prems"(5) obtain children' changed' pool1
    where ec: "edit_children cfg editor pool coord ?c0 False 0 = Inr (children', changed', pool1)"
      and res: "(if \<not> changed' then Inr (node, pool1)
                 else upsert_inner_node cfg pool1 (unat (level coord))
                        (get_packed_node_inplace children')) = Inr (node', pool')"
    by (auto simp: edit_inner_node.simps split: sum.splits)
  note U = unpack_valid [OF "2.prems"(1,2,3,4)]
  from "2.IH" [OF "2.prems"(1,2,3) U ec]
  have "children_post cfg editor pool coord ?c0 False 0 children' changed' pool1" .
  from inner_step [OF "2.prems"(1,2,3,4) this res] show ?case .
next
  case (3 cfg editor pool coord children changed i)
  show ?case
  proof (cases "i < 8")
    case True
    let ?cc = "get_child_coord coord i"
    let ?L = "Suc (unat (level coord))"
    from True "3.prems"(6) obtain new ch pool1
      where c: "edit_child cfg editor pool (children ! (i + 1)) ?cc = Inr (new, ch, pool1)"
        and r: "edit_children cfg editor pool1 coord (children[i + 1 := new]) (changed \<or> ch) (i + 1)
                  = Inr (children', changed', pool')"
      by (auto simp: edit_children.simps split: sum.splits)
    from child_level [OF "3.prems"(1,3)] have cl: "unat (level ?cc) = ?L" .
    from "3.prems"(3) have le: "unat (level ?cc) \<le> GetLeafLevel cfg" unfolding cl by simp
    from "3.prems"(5) True have vi: "valid_ptr cfg pool (unat (level ?cc)) (children ! (i + 1))"
      unfolding cl by simp
    from "3.IH"(1) [OF True "3.prems"(1,2) le vi c]
    have cp: "child_post cfg editor pool (children ! (i + 1)) ?cc new ch pool1" .
    then have inv1: "engine_inv cfg pool1" and ext1: "pool_ext cfg pool pool1"
      and vnew: "valid_ptr cfg pool1 ?L new"
      by (simp_all add: child_post_def cl)
    from "3.prems"(2) have pinv: "pool_inv cfg pool" by (simp add: engine_inv_def)
    from "3.prems"(3) leaf_level_less [OF "3.prems"(1)] have "?L < GetNodeLevels cfg" by simp
    note ve = valid_ptr_ext [OF pinv ext1 this]
    have v1: "\<forall>j < 8. valid_ptr cfg pool1 ?L (children[i + 1 := new] ! (j + 1))"
    proof (intro allI impI)
      fix j :: nat
      assume j: "j < 8"
      show "valid_ptr cfg pool1 ?L (children[i + 1 := new] ! (j + 1))"
      proof (cases "j = i")
        case True
        with vnew "3.prems"(4) j show ?thesis by simp
      next
        case False
        with "3.prems"(5) j ve show ?thesis by simp
      qed
    qed
    have l1: "length (children[i + 1 := new]) = 9" using "3.prems"(4) by simp
    from "3.IH"(2) [OF True c refl refl "3.prems"(1) inv1 "3.prems"(3) l1 v1 r]
    have "children_post cfg editor pool1 coord (children[i + 1 := new]) (changed \<or> ch) (i + 1)
        children' changed' pool'" .
    from children_step [OF "3.prems"(1,2,3,4,5) True cp this] show ?thesis .
  next
    case False
    with "3.prems"(6) have "children' = children" "changed' = changed" "pool' = pool"
      by (simp_all add: edit_children.simps)
    with False "3.prems"(2,4,5) show ?thesis
      by (simp add: children_post_def pool_ext_refl)
  qed
next
  case (4 cfg editor pool child child_coord)
  show ?case
  proof (rule child_step [OF "4.prems"(1,2,4) _ "4.prems"(5)])
    fix node' pool1
    assume "EditNode editor cfg child_coord child = kProceed"
      and "edit_node cfg editor pool child child_coord = Inr (node', pool1)"
    then show "edit_post cfg editor pool child child_coord node' pool1"
      by (rule "4.IH" [OF _ "4.prems"(1,2,3,4)])
  qed
qed

lemma stored_empty: "\<not> stored cfg NodePool_empty lvl p node"
  by (simp add: stored_def stored_offsets_def NodePool_empty_def)

lemma engine_inv_empty: "engine_inv cfg NodePool_empty"
  by (simp add: engine_inv_def pool_inv_empty pool_closed_def stored_empty)

lemma edits_inv:
  assumes cfg: "config_ok cfg"
  shows "engine_inv cfg pool \<Longrightarrow> valid_ptr cfg pool 0 root \<Longrightarrow>
         edits cfg editors (root, pool) = Inr (root', pool') \<Longrightarrow>
         engine_inv cfg pool' \<and> valid_ptr cfg pool' 0 root'"
proof (induction editors arbitrary: root pool)
  case Nil
  then show ?case by simp
next
  case (Cons editor editors)
  from Cons.prems(3) obtain r1 p1
    where e: "edit_node cfg editor pool root root_coord = Inr (r1, p1)"
      and r: "edits cfg editors (r1, p1) = Inr (root', pool')"
    by (auto split: sum.splits)
  have l: "unat (level root_coord) = 0" by (simp add: root_coord_def)
  from edit_correct(1) [OF cfg Cons.prems(1) _ _ e] Cons.prems(2)
  have "edit_post cfg editor pool root root_coord r1 p1" by (simp add: l)
  then have "engine_inv cfg p1" "valid_ptr cfg p1 0 r1" by (simp_all add: edit_post_def l)
  from Cons.IH [OF this r] show ?case .
qed

lemma reachable_inv:
  assumes "config_ok cfg" and "edits cfg editors (Null, NodePool_empty) = Inr (root, pool)"
  shows "engine_inv cfg pool" and "valid_ptr cfg pool 0 root"
  using edits_inv [OF assms(1) engine_inv_empty _ assms(2)] by simp_all

lemma stored_nodes_stored:
  "k < GetBucketsAtLevel cfg lvl \<Longrightarrow>
   (a, w) \<in> set (stored_nodes cfg pool lvl (level_base cfg lvl + k)) \<Longrightarrow> stored cfg pool lvl a w"
  by (auto simp: stored_def stored_nodes_def)

lemma edited_voxel_decreasing:
  assumes "never_fills editor"
  shows "edited_voxel cfg editor pool node coord path v \<Longrightarrow> get_voxel cfg pool node path v"
proof (induction path arbitrary: node coord)
  case Nil
  from assms have "EditVoxel editor cfg c b \<Longrightarrow> b" for c b
    unfolding never_fills_def by blast
  with Nil show ?case by simp
next
  case (Cons i path)
  let ?child = "get_unpacked_node_array cfg pool node ! (i + 1)"
  from assms have nf: "EditNode editor cfg (get_child_coord coord i) ?child \<noteq> kFill"
    by (simp add: never_fills_def)
  from Cons.prems nf Cons.IH [of ?child "get_child_coord coord i"] show ?case
    by (cases "EditNode editor cfg (get_child_coord coord i) ?child") (simp_all add: Let_def)
qed

lemma dig_never_fills: "never_fills (StatelessEditorWrapper_Sphere kDigMode e)"
  by (simp add: never_fills_def StatelessEditorWrapper_Sphere_def SphereEditor_EditNode_def
      SphereEditor_EditVoxel_def Let_def)

text \<open>
  C10: a \<open>SphereEditor\<close> in dig mode only removes voxels.  \<open>EditVoxel\<close> returns
  \<open>voxel \<and> \<not> VoxelInRange coord\<close>; \<open>EditNode\<close> never returns \<open>kFill\<close>; it returns \<open>kClear\<close>
  exactly on a subtree the sphere covers, that is when no corner of the subtree's box is
  farther from the centre than the radius (\<open>max_n2 \<le> r2\<close>), which is exactly where the fill
  mode returns \<open>kFill\<close>; and after a dig edit of a world that edits built from the empty
  world, the occupied voxels are a subset of those occupied before.
\<close>

theorem C10_dig_monotone:
  "SphereEditor_EditVoxel kDigMode e config coord voxel
     = (voxel \<and> \<not> SphereEditor_VoxelInRange e coord)
   \<and> SphereEditor_EditNode kDigMode e config coord ptr \<noteq> kFill
   \<and> (SphereEditor_EditNode kDigMode e config coord ptr = kClear)
       = (SphereEditor_max_n2 e config coord \<le> r2 e)
   \<and> (SphereEditor_EditNode kFillMode e config coord ptr = kFill)
       = (SphereEditor_EditNode kDigMode e config coord ptr = kClear)
   \<and> (config_ok config
        \<and> edits config editors (Null, NodePool_empty) = Inr (root, pool)
        \<and> edit_node config (StatelessEditorWrapper_Sphere kDigMode e) pool root root_coord
            = Inr (root', pool')
        \<longrightarrow> occupied config pool' root' \<subseteq> occupied config pool root)"
proof -
  have a: "SphereEditor_EditVoxel kDigMode e config coord voxel
      = (voxel \<and> \<not> SphereEditor_VoxelInRange e coord)"
    by (simp add: SphereEditor_EditVoxel_def)
  have b: "SphereEditor_EditNode kDigMode e config coord ptr \<noteq> kFill"
    by (simp add: SphereEditor_EditNode_def Let_def)
  have k: "(SphereEditor_EditNode kDigMode e config coord ptr = kClear)
      = (SphereEditor_max_n2 e config coord \<le> r2 e)"
    by (simp add: SphereEditor_EditNode_def SphereEditor_max_n2_def Let_def)
  have c: "(SphereEditor_EditNode kFillMode e config coord ptr = kFill)
      = (SphereEditor_EditNode kDigMode e config coord ptr = kClear)"
    by (simp add: SphereEditor_EditNode_def Let_def)
  have d: "occupied config pool' root' \<subseteq> occupied config pool root"
    if cfg: "config_ok config"
      and w: "edits config editors (Null, NodePool_empty) = Inr (root, pool)"
      and ed: "edit_node config (StatelessEditorWrapper_Sphere kDigMode e) pool root root_coord
          = Inr (root', pool')"
  proof -
    let ?dig = "StatelessEditorWrapper_Sphere kDigMode e"
    note R = reachable_inv [OF cfg w]
    have l: "unat (level root_coord) = 0" by (simp add: root_coord_def)
    from edit_correct(1) [OF cfg R(1) _ _ ed] R(2)
    have "edit_post config ?dig pool root root_coord root' pool'" by (simp add: l)
    then have sem: "\<And>path v. length path = GetLeafLevel config \<Longrightarrow> path_ok path v \<Longrightarrow>
        get_voxel config pool' root' path v = edited_voxel config ?dig pool root root_coord path v"
      by (simp add: edit_post_def l)
    show ?thesis
    proof
      fix x
      assume x: "x \<in> occupied config pool' root'"
      obtain path v where pv: "x = (path, v)" by (cases x)
      from x pv have len: "length path = GetLeafLevel config" and ok: "path_ok path v"
        and occ: "get_voxel config pool' root' path v"
        by (simp_all add: occupied_def)
      from occ sem [OF len ok] have "edited_voxel config ?dig pool root root_coord path v" by simp
      from edited_voxel_decreasing [OF dig_never_fills this] len ok pv
      show "x \<in> occupied config pool root" by (simp add: occupied_def)
    qed
  qed
  from a b k c d show ?thesis by blast
qed

theorem C10_dig_monotone_witness:
  "config_ok wide_config
   \<and> SphereEditor_max_n2 world_sphere wide_config last_leaf_coord = 48
   \<and> SphereEditor_EditNode kDigMode world_sphere wide_config last_leaf_coord Filled = kClear
   \<and> SphereEditor_max_n2 corner_sphere wide_config last_leaf_coord = 192
   \<and> SphereEditor_EditNode kDigMode corner_sphere wide_config last_leaf_coord Filled \<noteq> kClear
   \<and> (case edits wide_config [StatelessEditorWrapper_AABB whole_box] (Null, NodePool_empty) of
        Inl err \<Rightarrow> False
      | Inr (root, pool) \<Rightarrow>
          root = Filled
          \<and> (case edit_node wide_config (StatelessEditorWrapper_Sphere kDigMode world_sphere)
                    pool root root_coord of
               Inl err \<Rightarrow> False
             | Inr (root', pool') \<Rightarrow> root' = Null)
          \<and> (case edit_node wide_config (StatelessEditorWrapper_Sphere kDigMode corner_sphere)
                    pool root root_coord of
               Inl err \<Rightarrow> False
             | Inr (root', pool') \<Rightarrow>
                 \<not> get_voxel wide_config pool' root' [0] 0
                 \<and> get_voxel wide_config pool' root' [0] 63
                 \<and> get_voxel wide_config pool' root' [7] 0
                 \<and> ([0], 63) \<in> occupied wide_config pool root
                 \<and> occupied wide_config pool' root' \<subseteq> occupied wide_config pool root))"
proof -
  let ?fill = "StatelessEditorWrapper_AABB whole_box"
  let ?dig = "StatelessEditorWrapper_Sphere kDigMode corner_sphere"
  let ?all = "StatelessEditorWrapper_Sphere kDigMode world_sphere"
  have cfg: "config_ok wide_config"
    by (simp add: config_ok_def wide_config_def GetNodeLevels_def GetTotalWords_def
        GetTotalBuckets_def level_base_def GetWordsPerBucket_def GetWordsPerPage_def
        GetPagesPerBucket_def)
  have leaf: "GetLeafLevel wide_config = 1"
    by (simp add: GetLeafLevel_def GetNodeLevels_def wide_config_def)
  have m1: "SphereEditor_max_n2 world_sphere wide_config last_leaf_coord = 48"
    by code_simp
  have m2: "SphereEditor_max_n2 corner_sphere wide_config last_leaf_coord = 192"
    by code_simp
  from C10_dig_monotone [of world_sphere wide_config last_leaf_coord True Filled] m1
  have k1: "SphereEditor_EditNode kDigMode world_sphere wide_config last_leaf_coord Filled = kClear"
    by (simp add: world_sphere_def)
  from C10_dig_monotone [of corner_sphere wide_config last_leaf_coord True Filled] m2
  have k2: "SphereEditor_EditNode kDigMode corner_sphere wide_config last_leaf_coord Filled
      \<noteq> kClear"
    by (simp add: corner_sphere_def)
  have run: "case edits wide_config [?fill] (Null, NodePool_empty) of
        Inl err \<Rightarrow> False
      | Inr (root, pool) \<Rightarrow>
          root = Filled
          \<and> (case edit_node wide_config ?all pool root root_coord of
               Inl err \<Rightarrow> False
             | Inr (root', pool') \<Rightarrow> root' = Null)
          \<and> (case edit_node wide_config ?dig pool root root_coord of
               Inl err \<Rightarrow> False
             | Inr (root', pool') \<Rightarrow>
                 \<not> get_voxel wide_config pool' root' [0] 0
                 \<and> get_voxel wide_config pool' root' [0] 63
                 \<and> get_voxel wide_config pool' root' [7] 0)"
    by code_simp
  obtain root pool where w: "edits wide_config [?fill] (Null, NodePool_empty) = Inr (root, pool)"
    using run by (cases "edits wide_config [?fill] (Null, NodePool_empty)") auto
  from run have root: "root = Filled"
    and run1: "case edit_node wide_config ?all pool root root_coord of
               Inl err \<Rightarrow> False
             | Inr (root', pool') \<Rightarrow> root' = Null"
    and run2: "case edit_node wide_config ?dig pool root root_coord of
               Inl err \<Rightarrow> False
             | Inr (root', pool') \<Rightarrow>
                 \<not> get_voxel wide_config pool' root' [0] 0
                 \<and> get_voxel wide_config pool' root' [0] 63
                 \<and> get_voxel wide_config pool' root' [7] 0"
    unfolding w sum.case prod.case by blast+
  obtain root' pool' where ed: "edit_node wide_config ?dig pool root root_coord = Inr (root', pool')"
    using run2 by (cases "edit_node wide_config ?dig pool root root_coord") auto
  from run2 have v0: "\<not> get_voxel wide_config pool' root' [0] 0"
    and v63: "get_voxel wide_config pool' root' [0] 63"
    and v7: "get_voxel wide_config pool' root' [7] 0"
    unfolding ed sum.case prod.case by blast+
  from C10_dig_monotone [of corner_sphere wide_config root_coord True Null "[?fill]" root pool
      root' pool'] cfg w ed
  have sub: "occupied wide_config pool' root' \<subseteq> occupied wide_config pool root" by blast
  from v63 have "([0], 63) \<in> occupied wide_config pool' root'"
    by (simp add: occupied_def leaf path_ok_def)
  with sub have "([0], 63) \<in> occupied wide_config pool root" by blast
  with cfg m1 k1 m2 k2 root run1 v0 v63 v7 sub show ?thesis
    unfolding w ed sum.case prod.case by blast
qed

text \<open>
  C2: normalization.  \<open>upsert_leaf\<close> returns \<open>Null\<close> for the leaf of 64 zero bits and
  \<open>Filled\<close> for the leaf of 64 one bits, \<open>upsert_inner_node\<close> returns \<open>Null\<close> for the node
  whose children are all \<open>Null\<close> and \<open>Filled\<close> for the one whose children are all
  \<open>Filled\<close>, and none of them touches the pool; so in a world that edits built from the empty
  world no stored leaf is all zeros or all ones, and no stored inner node has all children
  \<open>Null\<close> or all children \<open>Filled\<close>.
\<close>

theorem C2_normalization:
  "upsert_leaf cfg pool lvl [0, 0] = Inr (Null, pool)
   \<and> upsert_leaf cfg pool lvl [0xFFFFFFFF, 0xFFFFFFFF] = Inr (Filled, pool)
   \<and> upsert_inner_node cfg pool lvl (get_packed_node_inplace (m # replicate 8 Null))
       = Inr (Null, pool)
   \<and> upsert_inner_node cfg pool lvl (get_packed_node_inplace (m # replicate 8 Filled))
       = Inr (Filled, pool)
   \<and> (config_ok cfg \<and> edits cfg editors (Null, NodePool_empty) = Inr (root, pool') \<longrightarrow>
        (\<forall>k < GetBucketsAtLevel cfg (GetLeafLevel cfg).
           \<forall>(a, w) \<in> set (stored_nodes cfg pool' (GetLeafLevel cfg)
                             (level_base cfg (GetLeafLevel cfg) + k)).
             w \<noteq> [0, 0] \<and> w \<noteq> [0xFFFFFFFF, 0xFFFFFFFF])
        \<and> (\<forall>l < GetLeafLevel cfg. \<forall>k < GetBucketsAtLevel cfg l.
             \<forall>(a, w) \<in> set (stored_nodes cfg pool' l (level_base cfg l + k)).
               tl (get_unpacked_node_array cfg pool' a) \<noteq> replicate 8 Null
               \<and> tl (get_unpacked_node_array cfg pool' a) \<noteq> replicate 8 Filled))"
proof -
  have a: "upsert_leaf cfg pool lvl [0, 0] = Inr (Null, pool)"
    by (simp add: upsert_leaf_def)
  have b: "upsert_leaf cfg pool lvl [0xFFFFFFFF, 0xFFFFFFFF] = Inr (Filled, pool)"
    by (simp add: upsert_leaf_def)
  have c: "upsert_inner_node cfg pool lvl (get_packed_node_inplace (m # replicate 8 Null))
       = Inr (Null, pool)"
    using pack8_all_null [of "replicate 8 Null"]
    by (simp add: upsert_inner_node_def get_packed_node_inplace_pack8)
  have d: "upsert_inner_node cfg pool lvl (get_packed_node_inplace (m # replicate 8 Filled))
       = Inr (Filled, pool)"
    using pack8_all_filled [of "replicate 8 Filled"] pack8_all_null [of "replicate 8 Filled"]
    by (simp add: upsert_inner_node_def get_packed_node_inplace_pack8)
  have e: "(\<forall>k < GetBucketsAtLevel cfg (GetLeafLevel cfg).
           \<forall>(a, w) \<in> set (stored_nodes cfg pool' (GetLeafLevel cfg)
                             (level_base cfg (GetLeafLevel cfg) + k)).
             w \<noteq> [0, 0] \<and> w \<noteq> [0xFFFFFFFF, 0xFFFFFFFF])
        \<and> (\<forall>l < GetLeafLevel cfg. \<forall>k < GetBucketsAtLevel cfg l.
             \<forall>(a, w) \<in> set (stored_nodes cfg pool' l (level_base cfg l + k)).
               tl (get_unpacked_node_array cfg pool' a) \<noteq> replicate 8 Null
               \<and> tl (get_unpacked_node_array cfg pool' a) \<noteq> replicate 8 Filled)"
    if cfg: "config_ok cfg" and w: "edits cfg editors (Null, NodePool_empty) = Inr (root, pool')"
  proof -
    note R = reachable_inv [OF cfg w]
    from R(1) have pinv: "pool_inv cfg pool'" and closed: "pool_closed cfg pool'"
      by (simp_all add: engine_inv_def)
    have leaves: "w \<noteq> [0, 0] \<and> w \<noteq> [0xFFFFFFFF, 0xFFFFFFFF]"
      if "k < GetBucketsAtLevel cfg (GetLeafLevel cfg)"
        and "(a, w) \<in> set (stored_nodes cfg pool' (GetLeafLevel cfg)
                             (level_base cfg (GetLeafLevel cfg) + k))" for k a w
    proof -
      from stored_nodes_stored [OF that] have "stored cfg pool' (GetLeafLevel cfg) a w" .
      with closed show ?thesis unfolding pool_closed_def by blast
    qed
    have inner: "tl (get_unpacked_node_array cfg pool' a) \<noteq> replicate 8 Null
               \<and> tl (get_unpacked_node_array cfg pool' a) \<noteq> replicate 8 Filled"
      if l: "l < GetLeafLevel cfg" and k: "k < GetBucketsAtLevel cfg l"
        and m: "(a, w) \<in> set (stored_nodes cfg pool' l (level_base cfg l + k))" for l k a w
    proof -
      from stored_nodes_stored [OF k m] have st: "stored cfg pool' l a w" .
      with closed l obtain cs where cs: "length cs = 8" "w = pack8 cs"
        "cs \<noteq> replicate 8 Null" "cs \<noteq> replicate 8 Filled"
        unfolding pool_closed_def by blast
      from l leaf_level_less [OF cfg] have l': "l < GetNodeLevels cfg" by simp
      from unpack_held [OF cfg pinv l cs(1)] stored_held [OF pinv l' st] cs(2)
      have "get_unpacked_node_array cfg pool' a = childmask_of cs # cs" by simp
      with cs(3,4) show ?thesis by simp
    qed
    from leaves inner show ?thesis by blast
  qed
  from a b c d e show ?thesis by blast
qed

theorem C2_normalization_witness:
  "config_ok wide_config
   \<and> (case edits wide_config [StatelessEditorWrapper_Sphere kFillMode corner_sphere]
             (Null, NodePool_empty) of
        Inl err \<Rightarrow> False
      | Inr (root, pool) \<Rightarrow>
          root = 0
          \<and> stored_nodes wide_config pool 0 0 = [(0, [1, 32])]
          \<and> stored_nodes wide_config pool 1 2 = [(32, [0x330033, 0])]
          \<and> tl (get_unpacked_node_array wide_config pool 0) \<noteq> replicate 8 Null
          \<and> tl (get_unpacked_node_array wide_config pool 0) \<noteq> replicate 8 Filled)"
proof -
  let ?fill = "StatelessEditorWrapper_Sphere kFillMode corner_sphere"
  have cfg: "config_ok wide_config"
    by (simp add: config_ok_def wide_config_def GetNodeLevels_def GetTotalWords_def
        GetTotalBuckets_def level_base_def GetWordsPerBucket_def GetWordsPerPage_def
        GetPagesPerBucket_def)
  have leaf: "GetLeafLevel wide_config = 1"
    by (simp add: GetLeafLevel_def GetNodeLevels_def wide_config_def)
  have buckets: "GetBucketsAtLevel wide_config 0 = 1" "level_base wide_config 0 = 0"
    by (simp_all add: GetBucketsAtLevel_def level_base_def wide_config_def)
  have run: "case edits wide_config [?fill] (Null, NodePool_empty) of
        Inl err \<Rightarrow> False
      | Inr (root, pool) \<Rightarrow>
          root = 0
          \<and> stored_nodes wide_config pool 0 0 = [(0, [1, 32])]
          \<and> stored_nodes wide_config pool 1 2 = [(32, [0x330033, 0])]"
    by code_simp
  obtain root pool where w: "edits wide_config [?fill] (Null, NodePool_empty) = Inr (root, pool)"
    using run by (cases "edits wide_config [?fill] (Null, NodePool_empty)") auto
  from run have root: "root = 0"
    and n0: "stored_nodes wide_config pool 0 0 = [(0, [1, 32])]"
    and n1: "stored_nodes wide_config pool 1 2 = [(32, [0x330033, 0])]"
    unfolding w sum.case prod.case by blast+
  note C = C2_normalization [where cfg = wide_config and editors = "[?fill]" and root = root
      and pool' = pool, THEN conjunct2, THEN conjunct2, THEN conjunct2, THEN conjunct2,
      rule_format, OF conjI, OF cfg w, THEN conjunct2, rule_format, of 0 0 "(0, [1, 32])"]
  from C have "tl (get_unpacked_node_array wide_config pool 0) \<noteq> replicate 8 Null
      \<and> tl (get_unpacked_node_array wide_config pool 0) \<noteq> replicate 8 Filled"
    by (simp add: leaf buckets n0)
  with cfg root n0 n1 show ?thesis
    unfolding w sum.case prod.case by blast
qed

subsection \<open>The decisions of the editor\<close>

lemma edit_children_unaffected:
  assumes "\<And>j c. EditNode editor cfg (get_child_coord coord j) c = kNotAffected"
  shows "edit_children cfg editor pool coord children changed i = Inr (children, changed, pool)"
proof (induction n \<equiv> "8 - i" arbitrary: i)
  case 0
  then show ?case by (subst edit_children.simps) simp
next
  case (Suc n)
  then have i: "i < 8" and n: "n = 8 - (i + 1)" by simp_all
  from Suc.hyps(1) [OF n] i assms show ?case
    by (subst edit_children.simps) (simp add: edit_child.simps)
qed

text \<open>
  C3, the root: \<open>edit_node\<close> goes to \<open>edit_leaf\<close> or \<open>edit_inner_node\<close> without asking the editor
  about the node it is given, so the decision of the editor for the root is never read.  An
  editor that decides \<open>kClear\<close> for the root leaves a \<open>Filled\<close> root \<open>Filled\<close>, and one that
  decides \<open>kFill\<close> leaves a \<open>Null\<close> root \<open>Null\<close>.
\<close>

theorem C3_root_not_asked_counterexample:
  "EditNode (root_editor kClear) wide_config root_coord Filled = kClear
   \<and> edit_node wide_config (root_editor kClear) NodePool_empty Filled root_coord
       = Inr (Filled, NodePool_empty)
   \<and> Filled \<noteq> Null
   \<and> EditNode (root_editor kFill) wide_config root_coord Null = kFill
   \<and> edit_node wide_config (root_editor kFill) NodePool_empty Null root_coord
       = Inr (Null, NodePool_empty)
   \<and> Null \<noteq> Filled"
proof -
  have d: "EditNode (root_editor k) wide_config (get_child_coord root_coord j) c = kNotAffected"
    for k j c
    by (simp add: root_editor_def get_child_coord_def root_coord_def)
  have nl: "\<not> is_leaf_level wide_config root_coord"
    by (simp add: is_leaf_level_def root_coord_def GetLeafLevel_def GetNodeLevels_def
        wide_config_def)
  have e: "edit_node wide_config (root_editor k) NodePool_empty node root_coord
      = Inr (node, NodePool_empty)" for k node
    by (simp add: edit_node.simps nl edit_inner_node.simps edit_children_unaffected [OF d])
  show ?thesis
    by (simp add: e) (simp add: root_editor_def root_coord_def)
qed

lemma edit_children_decisions:
  "edit_children cfg editor pool coord children changed i = Inr (children', changed', pool') \<Longrightarrow>
   length children = 9 \<Longrightarrow>
   length children' = 9 \<and> (changed \<longrightarrow> changed')
   \<and> (\<forall>j < 8. j < i \<longrightarrow> children' ! (j + 1) = children ! (j + 1))
   \<and> (\<forall>j < 8. i \<le> j \<longrightarrow>
        (EditNode editor cfg (get_child_coord coord j) (children ! (j + 1)) = kNotAffected \<longrightarrow>
           children' ! (j + 1) = children ! (j + 1))
        \<and> (EditNode editor cfg (get_child_coord coord j) (children ! (j + 1)) = kClear \<longrightarrow>
           children' ! (j + 1) = Null \<and> changed')
        \<and> (EditNode editor cfg (get_child_coord coord j) (children ! (j + 1)) = kFill \<longrightarrow>
           children' ! (j + 1) = Filled \<and> changed'))"
proof (induction n \<equiv> "8 - i" arbitrary: i children changed pool)
  case 0
  then have "\<not> i < 8" by simp
  with "0.prems" show ?case by (subst (asm) edit_children.simps) auto
next
  case (Suc n)
  then have i: "i < 8" and n: "n = 8 - (i + 1)" by simp_all
  let ?d = "\<lambda>j. EditNode editor cfg (get_child_coord coord j) (children ! (j + 1))"
  from i Suc.prems(1) obtain new ch pool1
    where c: "edit_child cfg editor pool (children ! (i + 1)) (get_child_coord coord i)
          = Inr (new, ch, pool1)"
      and r: "edit_children cfg editor pool1 coord (children[i + 1 := new]) (changed \<or> ch) (i + 1)
          = Inr (children', changed', pool')"
    by (subst (asm) edit_children.simps) (auto split: sum.splits)
  from Suc.prems(2) have l1: "length (children[i + 1 := new]) = 9" by simp
  note IH = Suc.hyps(1) [OF n r l1]
  from c have dec: "(?d i = kNotAffected \<longrightarrow> new = children ! (i + 1))
      \<and> (?d i = kClear \<longrightarrow> new = Null \<and> ch) \<and> (?d i = kFill \<longrightarrow> new = Filled \<and> ch)"
    by (auto simp: edit_child.simps get_filled_node_pointer_def split: EditType.splits sum.splits)
  from IH i Suc.prems(2) have at_i: "children' ! (i + 1) = new" by simp
  have other: "children[i + 1 := new] ! (j + 1) = children ! (j + 1)" if "j \<noteq> i" for j
    using that by simp
  have pre: "\<forall>j < 8. j < i \<longrightarrow> children' ! (j + 1) = children ! (j + 1)"
    using IH other by simp
  have post: "(?d j = kNotAffected \<longrightarrow> children' ! (j + 1) = children ! (j + 1))
      \<and> (?d j = kClear \<longrightarrow> children' ! (j + 1) = Null \<and> changed')
      \<and> (?d j = kFill \<longrightarrow> children' ! (j + 1) = Filled \<and> changed')"
    if j: "j < 8" "i \<le> j" for j
  proof (cases "j = i")
    case True
    with dec at_i IH show ?thesis by auto
  next
    case False
    with j have "i + 1 \<le> j" by simp
    with IH j(1) other [OF False] show ?thesis by simp
  qed
  from IH pre post show ?case by blast
qed

lemma edit_inner_children:
  assumes cfg: "config_ok cfg" and inv: "engine_inv cfg pool"
    and lv: "unat (level coord) < GetLeafLevel cfg"
    and v: "valid_ptr cfg pool (unat (level coord)) node"
    and ed: "edit_node cfg editor pool node coord = Inr (node', pool')"
    and j: "j < 8"
  shows "(EditNode editor cfg (get_child_coord coord j)
            (get_unpacked_node_array cfg pool node ! (j + 1)) = kNotAffected \<longrightarrow>
          get_unpacked_node_array cfg pool' node' ! (j + 1)
            = get_unpacked_node_array cfg pool node ! (j + 1))
       \<and> (EditNode editor cfg (get_child_coord coord j)
            (get_unpacked_node_array cfg pool node ! (j + 1)) = kClear \<longrightarrow>
          get_unpacked_node_array cfg pool' node' ! (j + 1) = Null)
       \<and> (EditNode editor cfg (get_child_coord coord j)
            (get_unpacked_node_array cfg pool node ! (j + 1)) = kFill \<longrightarrow>
          get_unpacked_node_array cfg pool' node' ! (j + 1) = Filled)"
proof -
  let ?l = "unat (level coord)"
  let ?c0 = "get_unpacked_node_array cfg pool node"
  from lv have nl: "\<not> is_leaf_level cfg coord" by (simp add: is_leaf_level_unat [OF cfg])
  with ed obtain children' changed' pool1
    where ec: "edit_children cfg editor pool coord ?c0 False 0 = Inr (children', changed', pool1)"
      and res: "(if \<not> changed' then Inr (node, pool1)
                 else upsert_inner_node cfg pool1 ?l (get_packed_node_inplace children'))
                = Inr (node', pool')"
    by (auto simp: edit_node.simps edit_inner_node.simps split: sum.splits)
  note U = unpack_valid [OF cfg inv lv v]
  from edit_correct(3) [OF cfg inv lv U ec]
  have post: "children_post cfg editor pool coord ?c0 False 0 children' changed' pool1" .
  then have inv1: "engine_inv cfg pool1" and ext1: "pool_ext cfg pool pool1"
    and v': "\<forall>j < 8. valid_ptr cfg pool1 (Suc ?l) (children' ! (j + 1))"
    by (simp_all add: children_post_def)
  note D = edit_children_decisions [OF ec U(1)]
  from D have len': "length children' = 9" by simp
  from D j have dj: "(EditNode editor cfg (get_child_coord coord j) (?c0 ! (j + 1)) = kNotAffected \<longrightarrow>
           children' ! (j + 1) = ?c0 ! (j + 1))
        \<and> (EditNode editor cfg (get_child_coord coord j) (?c0 ! (j + 1)) = kClear \<longrightarrow>
           children' ! (j + 1) = Null \<and> changed')
        \<and> (EditNode editor cfg (get_child_coord coord j) (?c0 ! (j + 1)) = kFill \<longrightarrow>
           children' ! (j + 1) = Filled \<and> changed')"
    by simp
  show ?thesis
  proof (cases changed')
    case False
    with res have eq: "node' = node" "pool' = pool1" by simp_all
    from inv1 have pinv1: "pool_inv cfg pool1" by (simp add: engine_inv_def)
    from unpack_ext [OF cfg inv pinv1 ext1 lv v]
    have "get_unpacked_node_array cfg pool1 node = ?c0" .
    with dj False show ?thesis unfolding eq by auto
  next
    case True
    let ?cs = "tl children'"
    from len' have lcs: "length ?cs = 8" by simp
    have nth_cs: "?cs ! k = children' ! (k + 1)" if "k < 8" for k
      using that len' by (simp add: nth_tl)
    have vcs: "\<forall>c \<in> set ?cs. valid_ptr cfg pool1 (Suc ?l) c"
    proof
      fix c
      assume "c \<in> set ?cs"
      then obtain k where "k < 8" "c = ?cs ! k" using lcs by (metis in_set_conv_nth)
      with v' nth_cs show "valid_ptr cfg pool1 (Suc ?l) c" by simp
    qed
    from True res have up: "upsert_inner_node cfg pool1 ?l (pack8 ?cs) = Inr (node', pool')"
      by (simp add: get_packed_node_inplace_pack8)
    note N = upsert_inner_node_correct [OF cfg inv1 lv lcs vcs up]
    note U' = unpack_valid [OF cfg N(1) lv N(3)]
    from U'(1) j have "get_unpacked_node_array cfg pool' node' ! (j + 1)
        = tl (get_unpacked_node_array cfg pool' node') ! j"
      by (simp add: nth_tl)
    with N(4) nth_cs [OF j]
    have "get_unpacked_node_array cfg pool' node' ! (j + 1) = children' ! (j + 1)" by simp
    with dj show ?thesis by auto
  qed
qed

text \<open>
  C3, below the root: the rewrite of a child in the loop of \<open>edit_inner_node\<close> returns the
  pointer it was given when the editor decides \<open>kNotAffected\<close>, \<open>Null\<close> when it decides
  \<open>kClear\<close> and \<open>Filled\<close> when it decides \<open>kFill\<close> (the leaf of ones is normalized to
  \<open>Filled\<close> as well), none of them touching the pool; so \<open>kFill\<close> over \<open>Filled\<close> gives
  \<open>Filled\<close> and \<open>kClear\<close> over \<open>Null\<close> gives \<open>Null\<close>.  And the node that \<open>edit_node\<close> returns for
  an inner node of a world holds these results: its child \<open>j\<close> is the old child, \<open>Null\<close> or
  \<open>Filled\<close> as the editor decides \<open>kNotAffected\<close>, \<open>kClear\<close> or \<open>kFill\<close> for that child.
\<close>

theorem C3_child_decisions:
  "(EditNode editor cfg coord ptr = kNotAffected \<longrightarrow>
      edit_child cfg editor pool ptr coord = Inr (ptr, False, pool))
   \<and> (EditNode editor cfg coord ptr = kClear \<longrightarrow>
      edit_child cfg editor pool ptr coord = Inr (Null, True, pool))
   \<and> (EditNode editor cfg coord ptr = kFill \<longrightarrow>
      edit_child cfg editor pool ptr coord = Inr (Filled, True, pool))
   \<and> upsert_leaf cfg pool lvl [0xFFFFFFFF, 0xFFFFFFFF] = Inr (Filled, pool)
   \<and> (EditNode editor cfg coord Filled = kFill \<longrightarrow>
      (case edit_child cfg editor pool Filled coord of
         Inl err \<Rightarrow> False | Inr (new_child, changed, pool') \<Rightarrow> new_child = Filled))
   \<and> (EditNode editor cfg coord Null = kClear \<longrightarrow>
      (case edit_child cfg editor pool Null coord of
         Inl err \<Rightarrow> False | Inr (new_child, changed, pool') \<Rightarrow> new_child = Null))
   \<and> (config_ok cfg \<and> engine_inv cfg pool \<and> unat (level coord) < GetLeafLevel cfg
        \<and> valid_ptr cfg pool (unat (level coord)) node
        \<and> edit_node cfg editor pool node coord = Inr (node', pool'') \<and> j < 8 \<longrightarrow>
        (EditNode editor cfg (get_child_coord coord j)
            (get_unpacked_node_array cfg pool node ! (j + 1)) = kNotAffected \<longrightarrow>
          get_unpacked_node_array cfg pool'' node' ! (j + 1)
            = get_unpacked_node_array cfg pool node ! (j + 1))
        \<and> (EditNode editor cfg (get_child_coord coord j)
            (get_unpacked_node_array cfg pool node ! (j + 1)) = kClear \<longrightarrow>
          get_unpacked_node_array cfg pool'' node' ! (j + 1) = Null)
        \<and> (EditNode editor cfg (get_child_coord coord j)
            (get_unpacked_node_array cfg pool node ! (j + 1)) = kFill \<longrightarrow>
          get_unpacked_node_array cfg pool'' node' ! (j + 1) = Filled))"
proof -
  have a: "(EditNode editor cfg coord ptr = kNotAffected \<longrightarrow>
      edit_child cfg editor pool ptr coord = Inr (ptr, False, pool))
   \<and> (EditNode editor cfg coord ptr = kClear \<longrightarrow>
      edit_child cfg editor pool ptr coord = Inr (Null, True, pool))
   \<and> (EditNode editor cfg coord ptr = kFill \<longrightarrow>
      edit_child cfg editor pool ptr coord = Inr (Filled, True, pool))
   \<and> upsert_leaf cfg pool lvl [0xFFFFFFFF, 0xFFFFFFFF] = Inr (Filled, pool)
   \<and> (EditNode editor cfg coord Filled = kFill \<longrightarrow>
      (case edit_child cfg editor pool Filled coord of
         Inl err \<Rightarrow> False | Inr (new_child, changed, pool') \<Rightarrow> new_child = Filled))
   \<and> (EditNode editor cfg coord Null = kClear \<longrightarrow>
      (case edit_child cfg editor pool Null coord of
         Inl err \<Rightarrow> False | Inr (new_child, changed, pool') \<Rightarrow> new_child = Null))"
    by (simp add: edit_child.simps get_filled_node_pointer_def upsert_leaf_def)
  from a edit_inner_children [of cfg pool coord node editor node' pool'' j] show ?thesis
    by blast
qed

theorem C3_child_decisions_witness:
  "edit_child wide_config (const_editor kNotAffected) NodePool_empty 16 last_leaf_coord
     = Inr (16, False, NodePool_empty)
   \<and> edit_child wide_config (const_editor kClear) NodePool_empty 16 last_leaf_coord
     = Inr (Null, True, NodePool_empty)
   \<and> edit_child wide_config (const_editor kFill) NodePool_empty 16 last_leaf_coord
     = Inr (Filled, True, NodePool_empty)
   \<and> edit_child wide_config (const_editor kFill) NodePool_empty Filled last_leaf_coord
     = Inr (Filled, True, NodePool_empty)
   \<and> edit_child wide_config (const_editor kClear) NodePool_empty Null last_leaf_coord
     = Inr (Null, True, NodePool_empty)
   \<and> EditNode corner_editor wide_config (get_child_coord root_coord 0) Filled = kClear
   \<and> EditNode corner_editor wide_config (get_child_coord root_coord 1) Filled = kFill
   \<and> EditNode corner_editor wide_config (get_child_coord root_coord 2) Filled = kNotAffected
   \<and> (case edit_node wide_config corner_editor NodePool_empty Filled root_coord of
        Inl err \<Rightarrow> False
      | Inr (node', pool') \<Rightarrow>
          node' = 0
          \<and> get_unpacked_node_array wide_config pool' node' ! 1 = Null
          \<and> get_unpacked_node_array wide_config pool' node' ! 2 = Filled
          \<and> get_unpacked_node_array wide_config pool' node' ! 3 = Filled)"
proof -
  have d: "EditNode (const_editor k) cfg coord ptr = k" for k cfg coord ptr
    by (simp add: const_editor_def)
  from C3_child_decisions [of "const_editor kNotAffected" wide_config last_leaf_coord 16
      NodePool_empty 0] d
  have a: "edit_child wide_config (const_editor kNotAffected) NodePool_empty 16 last_leaf_coord
     = Inr (16, False, NodePool_empty)" by simp
  from C3_child_decisions [of "const_editor kClear" wide_config last_leaf_coord 16
      NodePool_empty 0] d
  have b: "edit_child wide_config (const_editor kClear) NodePool_empty 16 last_leaf_coord
     = Inr (Null, True, NodePool_empty)" by simp
  from C3_child_decisions [of "const_editor kFill" wide_config last_leaf_coord 16
      NodePool_empty 0] d
  have c: "edit_child wide_config (const_editor kFill) NodePool_empty 16 last_leaf_coord
     = Inr (Filled, True, NodePool_empty)" by simp
  from C3_child_decisions [of "const_editor kFill" wide_config last_leaf_coord Filled
      NodePool_empty 0] d
  have e: "edit_child wide_config (const_editor kFill) NodePool_empty Filled last_leaf_coord
     = Inr (Filled, True, NodePool_empty)" by simp
  from C3_child_decisions [of "const_editor kClear" wide_config last_leaf_coord Null
      NodePool_empty 0] d
  have f: "edit_child wide_config (const_editor kClear) NodePool_empty Null last_leaf_coord
     = Inr (Null, True, NodePool_empty)" by simp
  have cfg: "config_ok wide_config"
    by (simp add: config_ok_def wide_config_def GetNodeLevels_def GetTotalWords_def
        GetTotalBuckets_def level_base_def GetWordsPerBucket_def GetWordsPerPage_def
        GetPagesPerBucket_def)
  have lv: "unat (level root_coord) < GetLeafLevel wide_config"
    by (simp add: root_coord_def GetLeafLevel_def GetNodeLevels_def wide_config_def)
  have un: "get_unpacked_node_array wide_config NodePool_empty Filled ! (j + 1) = Filled"
    if "j < 8" for j
    using that by (simp add: unpack_sentinel)
  have k0: "EditNode corner_editor wide_config (get_child_coord root_coord 0) Filled = kClear"
    and k1: "EditNode corner_editor wide_config (get_child_coord root_coord 1) Filled = kFill"
    and k2: "EditNode corner_editor wide_config (get_child_coord root_coord 2) Filled
        = kNotAffected"
    by (simp_all add: corner_editor_def get_child_coord_def root_coord_def)
  have run: "case edit_node wide_config corner_editor NodePool_empty Filled root_coord of
        Inl err \<Rightarrow> False | Inr (node', pool') \<Rightarrow> node' = 0"
    by code_simp
  obtain node' pool' where
    ed: "edit_node wide_config corner_editor NodePool_empty Filled root_coord = Inr (node', pool')"
    using run by (cases "edit_node wide_config corner_editor NodePool_empty Filled root_coord") auto
  from run have n0: "node' = 0" unfolding ed sum.case prod.case .
  note R = C3_child_decisions [where editor = corner_editor and cfg = wide_config
      and coord = root_coord and pool = NodePool_empty and node = Filled and node' = node'
      and pool'' = pool', THEN conjunct2, THEN conjunct2, THEN conjunct2, THEN conjunct2,
      THEN conjunct2, THEN conjunct2, rule_format]
  have hyp: "config_ok wide_config \<and> engine_inv wide_config NodePool_empty
      \<and> unat (level root_coord) < GetLeafLevel wide_config
      \<and> valid_ptr wide_config NodePool_empty (unat (level root_coord)) Filled
      \<and> edit_node wide_config corner_editor NodePool_empty Filled root_coord = Inr (node', pool')
      \<and> j < 8" if "j < 8" for j
    using cfg lv ed that by (simp add: engine_inv_empty)
  from R [OF hyp [of 0]] k0 un [of 0]
  have r0: "get_unpacked_node_array wide_config pool' node' ! 1 = Null" by simp
  from R [OF hyp [of 1]] k1 un [of 1]
  have r1: "get_unpacked_node_array wide_config pool' node' ! 2 = Filled"
    by (simp add: numeral_2_eq_2)
  from R [OF hyp [of 2]] k2 un [of 2]
  have r2: "get_unpacked_node_array wide_config pool' node' ! 3 = Filled"
    by (simp add: numeral_3_eq_3)
  from a b c e f k0 k1 k2 n0 r0 r1 r2 show ?thesis
    unfolding ed sum.case prod.case by blast
qed

subsection \<open>Fills in either order\<close>








end
